theory Spec2Isabelle
  imports Complex_Main "HOL-Library.AList"
begin

section \<open>Python values\<close>

text \<open>
  The schemas, configs and raw call records of \<^verbatim>\<open>tools.py\<close> are typed
  \<^verbatim>\<open>dict[str, Any]\<close>.  The values are modelled as JSON-like Python values.
  A \<^verbatim>\<open>dict\<close> is an association list in insertion order; floats are
  rationals (the code looks at a float only to test whether it is falsy).
\<close>

datatype pyval =
    PNone
  | PBool bool
  | PInt int
  | PFloat rat
  | PStr string
  | PList "pyval list"
  | PDict "(string \<times> pyval) list"

type_synonym pydict = "(string \<times> pyval) list"

datatype error = TypeError

text \<open>\<^verbatim>\<open>d.get(k)\<close>, \<^verbatim>\<open>k in d\<close> and \<^verbatim>\<open>d[k] = v\<close> (an existing key
  keeps its position, a new key is appended).\<close>

definition dict_get :: "pydict \<Rightarrow> string \<Rightarrow> pyval option" where
  "dict_get d k = map_of d k"

definition has_key :: "pydict \<Rightarrow> string \<Rightarrow> bool" where
  "has_key d k = (map_of d k \<noteq> None)"

definition dict_set :: "string \<Rightarrow> pyval \<Rightarrow> pydict \<Rightarrow> pydict" where
  "dict_set k v d = AList.update k v d"

text \<open>\<^verbatim>\<open>isinstance(v, dict)\<close>.\<close>

fun is_dict :: "pyval \<Rightarrow> bool" where
  "is_dict (PDict d) = True"
| "is_dict v = False"

text \<open>Lists and dicts have no hash: looking one up in a \<^verbatim>\<open>set\<close> raises
  \<^verbatim>\<open>TypeError: unhashable type\<close>.\<close>

fun hashable :: "pyval \<Rightarrow> bool" where
  "hashable (PList xs) = False"
| "hashable (PDict d) = False"
| "hashable v = True"

text \<open>Truthiness, as \<^verbatim>\<open>x or y\<close> tests it.\<close>

fun truthy :: "pyval \<Rightarrow> bool" where
  "truthy PNone = False"
| "truthy (PBool b) = b"
| "truthy (PInt i) = (i \<noteq> 0)"
| "truthy (PFloat r) = (r \<noteq> 0)"
| "truthy (PStr s) = (s \<noteq> [])"
| "truthy (PList xs) = (xs \<noteq> [])"
| "truthy (PDict d) = (d \<noteq> [])"

section \<open>The schema normalizer\<close>

definition valid_types :: "string list" where
  "valid_types =
     [''string'', ''number'', ''integer'', ''boolean'', ''object'', ''array'', ''null'']"

text \<open>\<^verbatim>\<open>v not in valid_types\<close>: the set hashes \<open>v\<close> first; only a string is
  equal to a member.\<close>

definition not_in_valid_types :: "pyval \<Rightarrow> error + bool" where
  "not_in_valid_types v =
     (if \<not> hashable v then Inl TypeError
      else Inr (case v of PStr s \<Rightarrow> s \<notin> set valid_types | _ \<Rightarrow> True))"

text \<open>Lines 57 to 70: make sure the \<^verbatim>\<open>type\<close> field exists and is valid.\<close>

definition ensure_type :: "pydict \<Rightarrow> error + pydict" where
  "ensure_type result =
     (if \<not> has_key result ''type'' then
        (if has_key result ''properties'' \<or> has_key result ''additionalProperties''
           then Inr (dict_set ''type'' (PStr ''object'') result)
         else if has_key result ''items''
           then Inr (dict_set ''type'' (PStr ''array'') result)
         else if has_key result ''enum''
           then Inr result
         else Inr (dict_set ''type'' (PStr ''string'') result))
      else
        (case not_in_valid_types (the (dict_get result ''type'')) of
           Inl e \<Rightarrow> Inl e
         | Inr invalid \<Rightarrow>
             (if invalid then Inr (dict_set ''type'' (PStr ''string'') result)
              else Inr result)))"

text \<open>Lines 74 to 77: an object gets \<^verbatim>\<open>properties\<close> and \<^verbatim>\<open>required\<close>.\<close>

definition ensure_object_fields :: "pydict \<Rightarrow> pydict" where
  "ensure_object_fields result =
     (let r1 = (if \<not> has_key result ''properties''
                then dict_set ''properties'' (PDict []) result else result)
      in (if \<not> has_key r1 ''required''
          then dict_set ''required'' (PList []) r1 else r1))"

text \<open>The dict comprehension \<^verbatim>\<open>{k: f(v) for k, v in d.items()}\<close>, in order; the
  first call that raises ends it.\<close>

fun map_values :: "('a \<Rightarrow> error + 'b) \<Rightarrow> ('k \<times> 'a) list \<Rightarrow> error + ('k \<times> 'b) list" where
  "map_values f [] = Inr []"
| "map_values f ((k, v) # kvs) =
     (case f v of
        Inl e \<Rightarrow> Inl e
      | Inr v' \<Rightarrow>
          (case map_values f kvs of
             Inl e \<Rightarrow> Inl e
           | Inr kvs' \<Rightarrow> Inr ((k, v') # kvs')))"

lemma map_values_cong [fundef_cong]:
  fixes f g :: "'a \<Rightarrow> error + 'b" and xs ys :: "('k \<times> 'a) list"
  assumes "xs = ys" and "\<And>k v. (k, v) \<in> set ys \<Longrightarrow> f v = g v"
  shows "map_values f xs = map_values g ys"
proof -
  have "(\<forall>p \<in> set zs. f (snd p) = g (snd p)) \<Longrightarrow> map_values f zs = map_values g zs"
    for zs :: "('k \<times> 'a) list"
    by (induction zs) (auto split: sum.splits)
  moreover have "\<forall>p \<in> set ys. f (snd p) = g (snd p)"
    using assms(2) by (metis prod.collapse)
  ultimately show ?thesis using assms(1) by simp
qed

lemma size_dict_get:
  "dict_get d k = Some v \<Longrightarrow> size v < size (PDict d)"
  by (induction d) (auto simp: dict_get_def split: if_splits)

lemma size_dict_member:
  "(k, v) \<in> set d \<Longrightarrow> size v < size (PDict d)"
  by (induction d) auto

lemma dict_get_set:
  "dict_get (dict_set k v d) k' = (if k' = k then Some v else dict_get d k')"
  by (simp add: dict_get_def dict_set_def update_conv')

lemma has_key_set:
  "has_key (dict_set k v d) k' = (k' = k \<or> has_key d k')"
  by (simp add: has_key_def dict_set_def update_conv')

lemma has_key_get: "has_key d k = (dict_get d k \<noteq> None)"
  by (simp add: has_key_def dict_get_def)

function (sequential) normalize_schema :: "pyval \<Rightarrow> error + pyval" where
  "normalize_schema (PDict schema) =
     (case ensure_type schema of
        Inl e \<Rightarrow> Inl e
      | Inr r0 \<Rightarrow>
     (case
        (if dict_get r0 ''type'' = Some (PStr ''object'') then
           (let r1 = ensure_object_fields r0 in
            (case dict_get r1 ''properties'' of
               Some (PDict props) \<Rightarrow>
                 (case map_values normalize_schema props of
                    Inl e \<Rightarrow> Inl e
                  | Inr props' \<Rightarrow> Inr (dict_set ''properties'' (PDict props') r1))
             | _ \<Rightarrow> Inr r1))
         else Inr r0)
      of
        Inl e \<Rightarrow> Inl e
      | Inr r2 \<Rightarrow>
     (case
        (if dict_get r2 ''type'' = Some (PStr ''array'') \<and> has_key r2 ''items'' then
           (case normalize_schema (the (dict_get r2 ''items'')) of
              Inl e \<Rightarrow> Inl e
            | Inr items' \<Rightarrow> Inr (dict_set ''items'' items' r2))
         else Inr r2)
      of
        Inl e \<Rightarrow> Inl e
      | Inr r3 \<Rightarrow>
     (case dict_get r3 ''additionalProperties'' of
        Some (PDict ap) \<Rightarrow>
          (case normalize_schema (PDict ap) of
             Inl e \<Rightarrow> Inl e
           | Inr ap' \<Rightarrow> Inr (PDict (dict_set ''additionalProperties'' ap' r3)))
      | _ \<Rightarrow> Inr (PDict r3)))))"
| "normalize_schema v = Inr v"
  by pat_completeness auto

lemma ensure_type_get:
  "ensure_type d = Inr r \<Longrightarrow> dict_get r k = Some v \<Longrightarrow>
     dict_get d k = Some v \<or> (k = ''type'' \<and> (\<exists>s. v = PStr s))"
  by (auto simp: ensure_type_def dict_get_set split: if_splits sum.splits)

lemma ensure_type_size:
  "ensure_type d = Inr r \<Longrightarrow> dict_get r k = Some v \<Longrightarrow> size v < size (PDict d)"
  by (auto dest!: ensure_type_get dest: size_dict_get)

lemma ensure_object_fields_get:
  "dict_get (ensure_object_fields r) k = Some v \<Longrightarrow>
     dict_get r k = Some v \<or> (k = ''properties'' \<and> v = PDict []) \<or>
     (k = ''required'' \<and> v = PList [])"
  by (auto simp: ensure_object_fields_def Let_def dict_get_set split: if_splits)

lemma size_props:
  assumes "ensure_type schema = Inr b"
    and "dict_get (ensure_object_fields b) k = Some (PDict props)"
    and "(k', v) \<in> set props"
  shows "size v < size (PDict schema)"
proof -
  from assms(2,3) have "dict_get b k = Some (PDict props)"
    using ensure_object_fields_get by fastforce
  with assms(1) have "size (PDict props) < size (PDict schema)"
    by (rule ensure_type_size)
  moreover from assms(3) have "size v < size (PDict props)"
    by (rule size_dict_member)
  ultimately show ?thesis by simp
qed

lemma object_branch_get:
  assumes "(if dict_get b ''type'' = Some (PStr ''object'')
       then let r1 = ensure_object_fields b
            in case dict_get r1 ''properties'' of None \<Rightarrow> Inr r1
               | Some (PDict props) \<Rightarrow>
                   (case map_values f props of Inl x \<Rightarrow> Inl x
                   | Inr props' \<Rightarrow>
                       Inr (dict_set ''properties'' (PDict props') r1))
               | Some _ \<Rightarrow> Inr r1
       else Inr b) = Inr ba"
    and "k \<noteq> ''properties''" and "dict_get ba k = Some v"
  shows "dict_get b k = Some v \<or> (k = ''required'' \<and> v = PList [])"
  using assms
  by (auto simp: Let_def dict_get_set split: if_splits option.splits pyval.splits sum.splits
      dest: ensure_object_fields_get)

lemma items_branch_get:
  assumes "(if c then case m of Inl x \<Rightarrow> Inl x | Inr items' \<Rightarrow> Inr (dict_set ''items'' items' ba)
            else Inr ba) = Inr bb"
    and "k \<noteq> ''items''"
  shows "dict_get bb k = dict_get ba k"
  using assms by (auto simp: dict_get_set split: if_splits sum.splits)

termination normalize_schema
proof (relation "measure size", goal_cases)
  case 1
  show ?case by simp
next
  case (2 schema b r1 x2 props k v)
  then show ?case using size_props by simp
next
  case (3 schema b ba)
  then obtain v where v: "dict_get ba ''items'' = Some v"
    by (auto simp: has_key_get)
  from object_branch_get [OF 3(2) _ v] have "dict_get b ''items'' = Some v"
    by simp
  with 3(1) have "size v < size (PDict schema)"
    by (auto dest: ensure_type_size)
  with v show ?case by simp
next
  case (4 schema b ba bb x2 ap)
  from items_branch_get [OF 4(3), of "''additionalProperties''"] 4(4,5)
  have "dict_get ba ''additionalProperties'' = Some (PDict ap)" by simp
  from object_branch_get [OF 4(2) _ this]
  have "dict_get b ''additionalProperties'' = Some (PDict ap)" by simp
  with 4(1) show ?case
    by (auto dest: ensure_type_size)
qed

text \<open>The defining equation for a dict is large; it is unfolded by name where needed.\<close>

declare normalize_schema.simps(1) [simp del]

section \<open>Tool specs\<close>

datatype ToolKind = KFunction | KMcp | KBuiltin

record FunctionToolSpec =
  fn_name :: string
  fn_description :: "string option"
  fn_parameters :: pydict
  fn_strict :: bool

record MCPToolSpec =
  mcp_server_id :: string
  mcp_name :: string
  mcp_description :: "string option"
  mcp_input_schema :: pydict
  mcp_result_schema :: "pydict option"

record BuiltinToolSpec =
  bi_type :: string
  bi_config :: pydict

record ToolSpec =
  kind :: ToolKind
  function_spec :: "FunctionToolSpec option"
  mcp_spec :: "MCPToolSpec option"
  builtin_spec :: "BuiltinToolSpec option"

section \<open>The format mapper\<close>

text \<open>\<^verbatim>\<open>description or ""\<close> for an optional string.\<close>

fun or_empty :: "string option \<Rightarrow> string" where
  "or_empty None = []"
| "or_empty (Some s) = s"

text \<open>\<^verbatim>\<open>item.update(config)\<close>: the pairs of \<open>config\<close> are stored one by one, in
  order.\<close>

definition dict_update :: "pydict \<Rightarrow> pydict \<Rightarrow> pydict" where
  "dict_update item config = fold (\<lambda>(k, v). dict_set k v) config item"

definition encode :: "string \<Rightarrow> string \<Rightarrow> string" where
  "encode server_id name = ''mcp::'' @ server_id @ ''::'' @ name"

definition function_decl :: "string \<Rightarrow> string \<Rightarrow> pyval \<Rightarrow> pyval" where
  "function_decl name description parameters =
     PDict [(''type'', PStr ''function''),
            (''function'', PDict [(''name'', PStr name),
                                   (''description'', PStr description),
                                   (''parameters'', parameters)])]"

text \<open>The loop of \<^verbatim>\<open>to_openai_tools\<close>, with the list \<open>out\<close> it appends to.  A
  pydantic model instance is always truthy, so \<^verbatim>\<open>t.function\<close> is true exactly when
  the payload is not \<^verbatim>\<open>None\<close>.\<close>

fun tools_loop :: "bool \<Rightarrow> ToolSpec list \<Rightarrow> pyval list \<Rightarrow> error + pyval list" where
  "tools_loop supports_mcp_native [] out = Inr out"
| "tools_loop supports_mcp_native (t # ts) out =
     (if kind t = KFunction \<and> function_spec t \<noteq> None then
        (let f = the (function_spec t) in
         case normalize_schema (PDict (fn_parameters f)) of
           Inl e \<Rightarrow> Inl e
         | Inr p \<Rightarrow>
             tools_loop supports_mcp_native ts
               (out @ [function_decl (fn_name f) (or_empty (fn_description f)) p]))
      else if kind t = KMcp \<and> mcp_spec t \<noteq> None then
        (let m = the (mcp_spec t) in
         if supports_mcp_native then
           (case normalize_schema (PDict (mcp_input_schema m)) of
              Inl e \<Rightarrow> Inl e
            | Inr p \<Rightarrow>
                tools_loop supports_mcp_native ts
                  (out @ [PDict [(''type'', PStr ''mcp''),
                                 (''server'', PStr (mcp_server_id m)),
                                 (''name'', PStr (mcp_name m)),
                                 (''parameters'', p)]]))
         else
           (let enc = encode (mcp_server_id m) (mcp_name m);
                desc = or_empty (mcp_description m) @ '' [MCP server='' @ mcp_server_id m @ '']''
            in case normalize_schema (PDict (mcp_input_schema m)) of
                 Inl e \<Rightarrow> Inl e
               | Inr p \<Rightarrow>
                   tools_loop supports_mcp_native ts (out @ [function_decl enc desc p])))
      else if kind t = KBuiltin \<and> builtin_spec t \<noteq> None then
        (let b = the (builtin_spec t);
             item = dict_update [(''type'', PStr (bi_type b))] (bi_config b)
         in tools_loop supports_mcp_native ts (out @ [PDict item]))
      else tools_loop supports_mcp_native ts out)"

definition to_openai_tools :: "ToolSpec list \<Rightarrow> bool \<Rightarrow> error + pyval list" where
  "to_openai_tools tools supports_mcp_native = tools_loop supports_mcp_native tools []"

subsection \<open>Example tools\<close>

definition tool_search :: ToolSpec where
  "tool_search =
     \<lparr>kind = KFunction,
      function_spec = Some \<lparr>fn_name = ''search'', fn_description = None,
                             fn_parameters = [], fn_strict = True\<rparr>,
      mcp_spec = None, builtin_spec = None\<rparr>"

definition tool_lookup :: ToolSpec where
  "tool_lookup =
     \<lparr>kind = KMcp, function_spec = None,
      mcp_spec = Some \<lparr>mcp_server_id = ''srv1'', mcp_name = ''lookup'',
                        mcp_description = None, mcp_input_schema = [],
                        mcp_result_schema = None\<rparr>,
      builtin_spec = None\<rparr>"

definition tool_broken :: ToolSpec where
  "tool_broken =
     \<lparr>kind = KBuiltin, function_spec = None, mcp_spec = None, builtin_spec = None\<rparr>"

section \<open>The call name codec\<close>

text \<open>
  \<^verbatim>\<open>_mcp_pat = re.compile(r"^mcp::(.+?)::(.+)$")\<close>, applied with \<^verbatim>\<open>match\<close>.
  Without flags, \<^verbatim>\<open>.\<close> matches any character but a newline, and \<^verbatim>\<open>$\<close>
  matches at the end of the string or just before a newline that ends the string.
\<close>

definition newline :: char where
  "newline = CHR 0x0A"

text \<open>\<^verbatim>\<open>$\<close> at the position where \<open>rest\<close> is what remains of the string.\<close>

definition at_end :: "string \<Rightarrow> bool" where
  "at_end rest = (rest = [] \<or> rest = [newline])"

text \<open>
  \<^verbatim>\<open>(.+)$\<close>: the greedy group takes every character up to the first newline.  Giving
  characters back cannot help, since \<^verbatim>\<open>$\<close> fails in front of a character that is
  not a newline; so the match is the longest run, if \<^verbatim>\<open>$\<close> holds after it.
\<close>

definition match_tool :: "string \<Rightarrow> string option" where
  "match_tool s =
     (let g = takeWhile (\<lambda>c. c \<noteq> newline) s;
          rest = dropWhile (\<lambda>c. c \<noteq> newline) s
      in if g \<noteq> [] \<and> at_end rest then Some g else None)"

text \<open>\<^verbatim>\<open>::(.+)$\<close>, what has to follow the server group.\<close>

fun match_rest :: "string \<Rightarrow> string option" where
  "match_rest (a # b # s) = (if a = CHR '':'' \<and> b = CHR '':'' then match_tool s else None)"
| "match_rest s = None"

text \<open>
  \<^verbatim>\<open>(.+?)\<close>: the lazy group takes one character, tries the rest of the pattern, and
  takes one more character each time the rest fails.  \<open>acc\<close> is what the group holds.
\<close>

fun match_server :: "string \<Rightarrow> string \<Rightarrow> (string \<times> string) option" where
  "match_server acc [] = None"
| "match_server acc (c # s) =
     (if c = newline then None
      else (case match_rest s of
              Some tool \<Rightarrow> Some (acc @ [c], tool)
            | None \<Rightarrow> match_server (acc @ [c]) s))"

definition mcp_pat_match :: "string \<Rightarrow> (string \<times> string) option" where
  "mcp_pat_match name =
     (if take 5 name = ''mcp::'' then match_server [] (drop 5 name) else None)"

definition decode_maybe_mcp :: "string \<Rightarrow> string option \<times> string" where
  "decode_maybe_mcp name =
     (case mcp_pat_match name of
        Some (server, tool) \<Rightarrow> (Some server, tool)
      | None \<Rightarrow> (None, name))"

text \<open>Whether a string contains the delimiter \<^verbatim>\<open>::\<close>.\<close>

fun contains_sep :: "string \<Rightarrow> bool" where
  "contains_sep (a # b # s) = ((a = CHR '':'' \<and> b = CHR '':'') \<or> contains_sep (b # s))"
| "contains_sep s = False"

section \<open>Inbound tool calls\<close>

text \<open>
  \<^verbatim>\<open>re.match\<close> on a value that is not a string raises \<^verbatim>\<open>TypeError\<close>; the constructor
  of \<^verbatim>\<open>ToolCall\<close> raises \<^verbatim>\<open>ValidationError\<close> on a field of the wrong type.
\<close>

datatype call_error = Raised error | ValidationError

text \<open>
  Modelled from the spec: the class \<^verbatim>\<open>ToolCall\<close> is imported from \<^verbatim>\<open>types.py\<close>,
  which is not among the sources.  The spec gives its four fields: \<^verbatim>\<open>id\<close>, \<^verbatim>\<open>name\<close>
  and \<^verbatim>\<open>arguments_json\<close> are strings, \<^verbatim>\<open>mcp_server_id\<close> is a string or absent.
\<close>

record ToolCall =
  tc_id :: string
  tc_name :: string
  tc_arguments_json :: string
  tc_mcp_server_id :: "string option"

text \<open>\<^verbatim>\<open>isinstance(v, str)\<close>, and the string a string value holds.\<close>

fun is_str :: "pyval \<Rightarrow> bool" where
  "is_str (PStr s) = True"
| "is_str v = False"

fun as_str :: "pyval \<Rightarrow> string option" where
  "as_str (PStr s) = Some s"
| "as_str v = None"

text \<open>
  Modelled from the spec: the call \<^verbatim>\<open>ToolCall(id=.., name=.., arguments_json=..,
  mcp_server_id=..)\<close>.  The class is a pydantic model, whose constructor validates every
  field against its declared type and raises on a mismatch: \<^verbatim>\<open>None\<close>, a number, a
  list or a dict is no string.
\<close>

definition new_ToolCall ::
  "pyval \<Rightarrow> pyval \<Rightarrow> pyval \<Rightarrow> string option \<Rightarrow> call_error + ToolCall" where
  "new_ToolCall i n a server =
     (case (as_str i, as_str n, as_str a) of
        (Some i', Some n', Some a') \<Rightarrow>
          Inr \<lparr> tc_id = i', tc_name = n', tc_arguments_json = a', tc_mcp_server_id = server \<rparr>
      | _ \<Rightarrow> Inl ValidationError)"

text \<open>\<^verbatim>\<open>raw.get(k)\<close> and \<^verbatim>\<open>raw.get(k, default)\<close>.\<close>

definition get_or_none :: "pydict \<Rightarrow> string \<Rightarrow> pyval" where
  "get_or_none raw k = (case dict_get raw k of None \<Rightarrow> PNone | Some v \<Rightarrow> v)"

definition get_default :: "pydict \<Rightarrow> string \<Rightarrow> pyval \<Rightarrow> pyval" where
  "get_default raw k dflt = (case dict_get raw k of None \<Rightarrow> dflt | Some v \<Rightarrow> v)"

text \<open>\<^verbatim>\<open>x or y\<close>.\<close>

definition py_or :: "pyval \<Rightarrow> pyval \<Rightarrow> pyval" where
  "py_or x y = (if truthy x then x else y)"

text \<open>
  \<^verbatim>\<open>normalize_tool_call\<close>.  The name is decoded first, before the constructor is
  called, so a name that is not a string raises \<^verbatim>\<open>TypeError\<close> whatever the other
  fields hold.  The test \<^verbatim>\<open>tool if server else ...\<close> is the truthiness of an optional
  string.
\<close>

definition normalize_tool_call :: "pydict \<Rightarrow> call_error + ToolCall" where
  "normalize_tool_call raw =
     (case get_default raw ''name'' (PStr []) of
        PStr name \<Rightarrow>
          (let (server, tool) = decode_maybe_mcp name in
           new_ToolCall
             (py_or (get_or_none raw ''id'') (PStr []))
             (if (case server of None \<Rightarrow> False | Some s \<Rightarrow> s \<noteq> [])
              then PStr tool else get_default raw ''name'' (PStr []))
             (get_default raw ''arguments'' (PStr ''{}''))
             server)
      | _ \<Rightarrow> Inl (Raised TypeError))"

section \<open>The normalizer on a store of shared objects\<close>

text \<open>
  Whether \<^verbatim>\<open>_normalize_schema\<close> changes its argument cannot be read off a function
  from values to values.  Here dicts and lists are objects in a store, values refer to them
  by address, and \<^verbatim>\<open>result[k] = v\<close> overwrites the object at the address of
  \<^verbatim>\<open>result\<close>.  A new object gets the next free address.  The depth counts the calls
  the interpreter still allows: at depth 0 a call raises \<^verbatim>\<open>RecursionError\<close>, which is
  what a circular schema ends in.
\<close>

datatype hval =
    HNone
  | HBool bool
  | HInt int
  | HFloat rat
  | HStr string
  | HRef nat

datatype hobj = HList "hval list" | HDict "(string \<times> hval) list"

type_synonym heap = "hobj list"

datatype herror = HTypeError | RecursionError

definition alloc :: "hobj \<Rightarrow> heap \<Rightarrow> nat \<times> heap" where
  "alloc obj h = (length h, h @ [obj])"

text \<open>\<^verbatim>\<open>isinstance(v, dict)\<close>: the items of the dict \<open>v\<close> refers to, if it refers to one.\<close>

definition as_dict :: "heap \<Rightarrow> hval \<Rightarrow> (string \<times> hval) list option" where
  "as_dict h v =
     (case v of
        HRef a \<Rightarrow> (if a < length h then (case h ! a of HDict d \<Rightarrow> Some d | HList xs \<Rightarrow> None)
                   else None)
      | _ \<Rightarrow> None)"

text \<open>The items of the dict at address \<open>r\<close>, and \<^verbatim>\<open>result[k] = v\<close> for the dict at \<open>r\<close>.\<close>

definition items_at :: "heap \<Rightarrow> nat \<Rightarrow> (string \<times> hval) list" where
  "items_at h r = (case as_dict h (HRef r) of Some d \<Rightarrow> d | None \<Rightarrow> [])"

definition set_item :: "nat \<Rightarrow> string \<Rightarrow> hval \<Rightarrow> heap \<Rightarrow> heap" where
  "set_item r k v h = h[r := HDict (AList.update k v (items_at h r))]"

text \<open>\<^verbatim>\<open>v not in valid_types\<close>; a reference is to a list or a dict, which has no hash.\<close>

definition not_in_valid_types_heap :: "hval \<Rightarrow> herror + bool" where
  "not_in_valid_types_heap v =
     (case v of
        HRef a \<Rightarrow> Inl HTypeError
      | HStr s \<Rightarrow> Inr (s \<notin> set valid_types)
      | _ \<Rightarrow> Inr True)"

text \<open>Lines 57 to 70, on the dict at \<open>r\<close>.\<close>

definition ensure_type_heap :: "nat \<Rightarrow> heap \<Rightarrow> (herror + unit) \<times> heap" where
  "ensure_type_heap r h =
     (let d = items_at h r in
      if map_of d ''type'' = None then
        (if map_of d ''properties'' \<noteq> None \<or> map_of d ''additionalProperties'' \<noteq> None
           then (Inr (), set_item r ''type'' (HStr ''object'') h)
         else if map_of d ''items'' \<noteq> None
           then (Inr (), set_item r ''type'' (HStr ''array'') h)
         else if map_of d ''enum'' \<noteq> None
           then (Inr (), h)
         else (Inr (), set_item r ''type'' (HStr ''string'') h))
      else
        (case not_in_valid_types_heap (the (map_of d ''type'')) of
           Inl e \<Rightarrow> (Inl e, h)
         | Inr invalid \<Rightarrow>
             (if invalid then (Inr (), set_item r ''type'' (HStr ''string'') h)
              else (Inr (), h))))"

text \<open>Lines 74 to 77: \<^verbatim>\<open>{}\<close> and \<^verbatim>\<open>[]\<close> are new objects.\<close>

definition ensure_object_fields_heap :: "nat \<Rightarrow> heap \<Rightarrow> heap" where
  "ensure_object_fields_heap r h =
     (let h1 = (if map_of (items_at h r) ''properties'' = None
                then (let (a, h') = alloc (HDict []) h in set_item r ''properties'' (HRef a) h')
                else h)
      in (if map_of (items_at h1 r) ''required'' = None
          then (let (a, h') = alloc (HList []) h1 in set_item r ''required'' (HRef a) h')
          else h1))"

text \<open>The dict comprehension: the calls run in order, each on the store the one before
  left.\<close>

fun map_values_heap ::
  "(heap \<Rightarrow> hval \<Rightarrow> (herror + hval) \<times> heap) \<Rightarrow> heap \<Rightarrow> (string \<times> hval) list \<Rightarrow>
     (herror + (string \<times> hval) list) \<times> heap" where
  "map_values_heap f h [] = (Inr [], h)"
| "map_values_heap f h ((k, v) # kvs) =
     (case f h v of
        (Inl e, h1) \<Rightarrow> (Inl e, h1)
      | (Inr v', h1) \<Rightarrow>
          (case map_values_heap f h1 kvs of
             (Inl e, h2) \<Rightarrow> (Inl e, h2)
           | (Inr kvs', h2) \<Rightarrow> (Inr ((k, v') # kvs'), h2)))"

text \<open>Lines 79 to 82.\<close>

definition object_step_heap ::
  "(heap \<Rightarrow> hval \<Rightarrow> (herror + hval) \<times> heap) \<Rightarrow> nat \<Rightarrow> heap \<Rightarrow> (herror + unit) \<times> heap" where
  "object_step_heap f r h =
     (if map_of (items_at h r) ''type'' = Some (HStr ''object'') then
        (let h1 = ensure_object_fields_heap r h in
         (case map_of (items_at h1 r) ''properties'' of
            None \<Rightarrow> (Inr (), h1)
          | Some pv \<Rightarrow>
              (case as_dict h1 pv of
                 None \<Rightarrow> (Inr (), h1)
               | Some props \<Rightarrow>
                   (case map_values_heap f h1 props of
                      (Inl e, h2) \<Rightarrow> (Inl e, h2)
                    | (Inr props', h2) \<Rightarrow>
                        (let (a, h3) = alloc (HDict props') h2
                         in (Inr (), set_item r ''properties'' (HRef a) h3))))))
      else (Inr (), h))"

text \<open>Lines 85 and 86.\<close>

definition items_step_heap ::
  "(heap \<Rightarrow> hval \<Rightarrow> (herror + hval) \<times> heap) \<Rightarrow> nat \<Rightarrow> heap \<Rightarrow> (herror + unit) \<times> heap" where
  "items_step_heap f r h =
     (if map_of (items_at h r) ''type'' = Some (HStr ''array'') \<and>
         map_of (items_at h r) ''items'' \<noteq> None then
        (case f h (the (map_of (items_at h r) ''items'')) of
           (Inl e, h1) \<Rightarrow> (Inl e, h1)
         | (Inr v, h1) \<Rightarrow> (Inr (), set_item r ''items'' v h1))
      else (Inr (), h))"

text \<open>Lines 89 and 90.\<close>

definition additional_step_heap ::
  "(heap \<Rightarrow> hval \<Rightarrow> (herror + hval) \<times> heap) \<Rightarrow> nat \<Rightarrow> heap \<Rightarrow> (herror + unit) \<times> heap" where
  "additional_step_heap f r h =
     (case map_of (items_at h r) ''additionalProperties'' of
        None \<Rightarrow> (Inr (), h)
      | Some av \<Rightarrow>
          (case as_dict h av of
             None \<Rightarrow> (Inr (), h)
           | Some ap \<Rightarrow>
               (case f h av of
                  (Inl e, h1) \<Rightarrow> (Inl e, h1)
                | (Inr v, h1) \<Rightarrow> (Inr (), set_item r ''additionalProperties'' v h1))))"

text \<open>\<^verbatim>\<open>_normalize_schema\<close>: \<^verbatim>\<open>result = dict(schema)\<close> is a new dict with the
  items of \<open>schema\<close>, which the steps then write to.\<close>

fun normalize_schema_heap :: "nat \<Rightarrow> heap \<Rightarrow> hval \<Rightarrow> (herror + hval) \<times> heap" where
  "normalize_schema_heap 0 h schema = (Inl RecursionError, h)"
| "normalize_schema_heap (Suc depth) h schema =
     (case as_dict h schema of
        None \<Rightarrow> (Inr schema, h)
      | Some d \<Rightarrow>
          (let (r, h0) = alloc (HDict d) h in
           (case ensure_type_heap r h0 of
              (Inl e, h1) \<Rightarrow> (Inl e, h1)
            | (Inr u1, h1) \<Rightarrow>
           (case object_step_heap (normalize_schema_heap depth) r h1 of
              (Inl e, h2) \<Rightarrow> (Inl e, h2)
            | (Inr u2, h2) \<Rightarrow>
           (case items_step_heap (normalize_schema_heap depth) r h2 of
              (Inl e, h3) \<Rightarrow> (Inl e, h3)
            | (Inr u3, h3) \<Rightarrow>
           (case additional_step_heap (normalize_schema_heap depth) r h3 of
              (Inl e, h4) \<Rightarrow> (Inl e, h4)
            | (Inr u4, h4) \<Rightarrow> (Inr (HRef r), h4)))))))"

text \<open>Every object of \<open>h\<close> is in \<open>h'\<close>, at its address and with its contents.\<close>

definition unchanged :: "heap \<Rightarrow> heap \<Rightarrow> bool" where
  "unchanged h h' = (take (length h) h' = h)"

definition example_store :: heap where
  "example_store =
     [HDict [(''properties'', HRef 1), (''additionalProperties'', HRef 2)],
      HDict [(''a'', HRef 3)], HDict [], HDict [(''items'', HInt 3)]]"

section \<open>Idempotence of the normalizer\<close>

definition object_step :: "(pyval \<Rightarrow> error + pyval) \<Rightarrow> pydict \<Rightarrow> error + pydict" where
  "object_step f r0 =
     (if dict_get r0 ''type'' = Some (PStr ''object'') then
        (let r1 = ensure_object_fields r0 in
         (case dict_get r1 ''properties'' of
            Some (PDict props) \<Rightarrow>
              (case map_values f props of
                 Inl e \<Rightarrow> Inl e
               | Inr props' \<Rightarrow> Inr (dict_set ''properties'' (PDict props') r1))
          | _ \<Rightarrow> Inr r1))
      else Inr r0)"

definition items_step :: "(pyval \<Rightarrow> error + pyval) \<Rightarrow> pydict \<Rightarrow> error + pydict" where
  "items_step f r2 =
     (if dict_get r2 ''type'' = Some (PStr ''array'') \<and> has_key r2 ''items'' then
        (case f (the (dict_get r2 ''items'')) of
           Inl e \<Rightarrow> Inl e
         | Inr items' \<Rightarrow> Inr (dict_set ''items'' items' r2))
      else Inr r2)"

definition additional_step :: "(pyval \<Rightarrow> error + pyval) \<Rightarrow> pydict \<Rightarrow> error + pyval" where
  "additional_step f r3 =
     (case dict_get r3 ''additionalProperties'' of
        Some (PDict ap) \<Rightarrow>
          (case f (PDict ap) of
             Inl e \<Rightarrow> Inl e
           | Inr ap' \<Rightarrow> Inr (PDict (dict_set ''additionalProperties'' ap' r3)))
      | _ \<Rightarrow> Inr (PDict r3))"

lemma normalize_schema_steps:
  "normalize_schema (PDict schema) =
     (case ensure_type schema of Inl e \<Rightarrow> Inl e | Inr r0 \<Rightarrow>
      (case object_step normalize_schema r0 of Inl e \<Rightarrow> Inl e | Inr r2 \<Rightarrow>
       (case items_step normalize_schema r2 of Inl e \<Rightarrow> Inl e | Inr r3 \<Rightarrow>
          additional_step normalize_schema r3)))"
  unfolding object_step_def items_step_def additional_step_def
  by (rule normalize_schema.simps(1))

lemma normalize_schema_Inr_steps:
  assumes "normalize_schema (PDict schema) = Inr res"
  obtains r0 r2 r3 where "ensure_type schema = Inr r0"
    and "object_step normalize_schema r0 = Inr r2"
    and "items_step normalize_schema r2 = Inr r3"
    and "additional_step normalize_schema r3 = Inr res"
  using assms unfolding normalize_schema_steps by (auto split: sum.splits)

lemma additional_step_is_dict:
  "additional_step f r3 = Inr res \<Longrightarrow> \<exists>r4. res = PDict r4"
  by (auto simp: additional_step_def split: option.splits pyval.splits sum.splits)

lemma normalize_schema_is_dict:
  "normalize_schema (PDict schema) = Inr res \<Longrightarrow> \<exists>r4. res = PDict r4"
  by (erule normalize_schema_Inr_steps) (rule additional_step_is_dict)


definition typed :: "pydict \<Rightarrow> bool" where
  "typed r =
     ((\<exists>s. s \<in> set valid_types \<and> dict_get r ''type'' = Some (PStr s)) \<or>
      (dict_get r ''type'' = None \<and> dict_get r ''properties'' = None \<and>
       dict_get r ''additionalProperties'' = None \<and> dict_get r ''items'' = None \<and>
       dict_get r ''enum'' \<noteq> None))"

lemma valid_types_members:
  "''string'' \<in> set valid_types" "''object'' \<in> set valid_types" "''array'' \<in> set valid_types"
  by (simp_all add: valid_types_def)

lemma not_in_valid_types_False:
  "not_in_valid_types v = Inr False \<Longrightarrow> \<exists>s. v = PStr s \<and> s \<in> set valid_types"
  by (cases v) (auto simp: not_in_valid_types_def split: if_splits)

lemma in_valid_types:
  "s \<in> set valid_types \<Longrightarrow> not_in_valid_types (PStr s) = Inr False"
  by (simp add: not_in_valid_types_def)

lemma ensure_type_typed:
  assumes "ensure_type d = Inr r0"
  shows "typed r0"
proof (cases "has_key d ''type''")
  case False
  with assms show ?thesis
    by (auto simp: ensure_type_def typed_def has_key_get dict_get_set valid_types_members
        split: if_splits)
next
  case True
  then obtain v where v: "dict_get d ''type'' = Some v" by (auto simp: has_key_get)
  with assms True obtain b where b: "not_in_valid_types v = Inr b"
    by (auto simp: ensure_type_def split: sum.splits)
  show ?thesis
  proof (cases b)
    case True
    with assms v b \<open>has_key d ''type''\<close> have "r0 = dict_set ''type'' (PStr ''string'') d"
      by (simp add: ensure_type_def)
    then show ?thesis by (auto simp: typed_def dict_get_set valid_types_members)
  next
    case False
    with assms v b \<open>has_key d ''type''\<close> have "r0 = d" by (simp add: ensure_type_def)
    moreover from False b have "not_in_valid_types v = Inr False" by simp
    then obtain s where "v = PStr s" "s \<in> set valid_types"
      by (auto dest: not_in_valid_types_False)
    ultimately show ?thesis using v by (auto simp: typed_def)
  qed
qed

lemma typed_ensure_type: "typed r \<Longrightarrow> ensure_type r = Inr r"
  by (auto simp: ensure_type_def typed_def has_key_get in_valid_types)

lemma dict_set_triv: "dict_get d k = Some v \<Longrightarrow> dict_set k v d = d"
  by (simp add: dict_get_def dict_set_def update_triv)

lemma object_step_other:
  "object_step f r0 = Inr r2 \<Longrightarrow> dict_get r0 ''type'' \<noteq> Some (PStr ''object'') \<Longrightarrow> r2 = r0"
  by (simp add: object_step_def)

lemma object_step_get:
  "object_step f r0 = Inr r2 \<Longrightarrow> k \<noteq> ''properties'' \<Longrightarrow> k \<noteq> ''required'' \<Longrightarrow>
     dict_get r2 k = dict_get r0 k"
  by (auto simp: object_step_def Let_def ensure_object_fields_def dict_get_set
      split: if_splits option.splits pyval.splits sum.splits)

lemma items_step_other:
  "items_step f r2 = Inr r3 \<Longrightarrow> dict_get r2 ''type'' \<noteq> Some (PStr ''array'') \<Longrightarrow> r3 = r2"
  by (simp add: items_step_def)

lemma items_step_get:
  "items_step f r2 = Inr r3 \<Longrightarrow> k \<noteq> ''items'' \<Longrightarrow> dict_get r3 k = dict_get r2 k"
  by (auto simp: items_step_def dict_get_set split: if_splits sum.splits)

lemma additional_step_other:
  "additional_step f r3 = Inr (PDict r4) \<Longrightarrow> dict_get r3 ''additionalProperties'' = None \<Longrightarrow>
     r4 = r3"
  by (simp add: additional_step_def)

lemma additional_step_get:
  "additional_step f r3 = Inr (PDict r4) \<Longrightarrow> k \<noteq> ''additionalProperties'' \<Longrightarrow>
     dict_get r4 k = dict_get r3 k"
  by (auto simp: additional_step_def dict_get_set split: option.splits pyval.splits sum.splits)

lemma object_step_fixed:
  assumes step: "object_step f r0 = Inr r2"
    and ih: "\<And>props props'. dict_get r0 ''type'' = Some (PStr ''object'') \<Longrightarrow>
               dict_get (ensure_object_fields r0) ''properties'' = Some (PDict props) \<Longrightarrow>
               map_values f props = Inr props' \<Longrightarrow> map_values f props' = Inr props'"
    and ty: "dict_get r4 ''type'' = dict_get r2 ''type''"
    and pr: "dict_get r4 ''properties'' = dict_get r2 ''properties''"
    and rq: "dict_get r2 ''required'' \<noteq> None \<Longrightarrow> dict_get r4 ''required'' \<noteq> None"
  shows "object_step f r4 = Inr r4"
proof (cases "dict_get r0 ''type'' = Some (PStr ''object'')")
  case False
  with step have "r2 = r0" by (simp add: object_step_def)
  with False ty show ?thesis by (simp add: object_step_def)
next
  case True
  define r1 where "r1 = ensure_object_fields r0"
  have r1_type: "dict_get r1 ''type'' = Some (PStr ''object'')"
    using True by (simp add: r1_def ensure_object_fields_def Let_def dict_get_set has_key_get)
  have r1_keys: "dict_get r1 ''properties'' \<noteq> None" "dict_get r1 ''required'' \<noteq> None"
    by (auto simp: r1_def ensure_object_fields_def Let_def dict_get_set has_key_get)
  have r2_keys: "dict_get r2 ''type'' = Some (PStr ''object'')"
      "dict_get r2 ''properties'' \<noteq> None" "dict_get r2 ''required'' \<noteq> None"
    using step True r1_type r1_keys
    by (auto simp: object_step_def r1_def [symmetric] dict_get_set
        split: option.splits pyval.splits sum.splits)
  have fields: "ensure_object_fields r4 = r4"
    using r2_keys pr rq by (auto simp: ensure_object_fields_def Let_def has_key_get)
  show ?thesis
  proof (cases "\<exists>props. dict_get r1 ''properties'' = Some (PDict props)")
    case False
    with step True have "r2 = r1"
      by (auto simp: object_step_def r1_def [symmetric] split: option.splits pyval.splits)
    with False pr ty r2_keys fields show ?thesis
      by (auto simp: object_step_def split: option.splits pyval.splits)
  next
    case True
    then obtain props where props: "dict_get r1 ''properties'' = Some (PDict props)" by blast
    with step \<open>dict_get r0 ''type'' = Some (PStr ''object'')\<close>
    obtain props' where p': "map_values f props = Inr props'"
      and r2: "r2 = dict_set ''properties'' (PDict props') r1"
      by (auto simp: object_step_def r1_def [symmetric] split: sum.splits)
    from ih [OF \<open>dict_get r0 ''type'' = Some (PStr ''object'')\<close> props [unfolded r1_def] p']
    have fp: "map_values f props' = Inr props'" .
    have "dict_get r4 ''properties'' = Some (PDict props')"
      using pr r2 by (simp add: dict_get_set)
    with fp ty r2_keys fields show ?thesis
      by (simp add: object_step_def dict_set_triv)
  qed
qed

lemma items_step_fixed:
  assumes step: "items_step f r2 = Inr r3"
    and ih: "\<And>items'. dict_get r2 ''type'' = Some (PStr ''array'') \<Longrightarrow> has_key r2 ''items'' \<Longrightarrow>
               f (the (dict_get r2 ''items'')) = Inr items' \<Longrightarrow> f items' = Inr items'"
    and ty: "dict_get r4 ''type'' = dict_get r3 ''type''"
    and it: "dict_get r4 ''items'' = dict_get r3 ''items''"
  shows "items_step f r4 = Inr r4"
proof (cases "dict_get r2 ''type'' = Some (PStr ''array'') \<and> has_key r2 ''items''")
  case False
  with step have "r3 = r2" by (simp add: items_step_def)
  with False ty it show ?thesis by (auto simp: items_step_def has_key_get)
next
  case True
  with step obtain items' where i': "f (the (dict_get r2 ''items'')) = Inr items'"
    and r3: "r3 = dict_set ''items'' items' r2"
    by (auto simp: items_step_def split: sum.splits)
  from ih [OF _ _ i'] True have fp: "f items' = Inr items'" by simp
  have "dict_get r4 ''items'' = Some items'" using it r3 by (simp add: dict_get_set)
  with fp show ?thesis by (simp add: items_step_def has_key_get dict_set_triv)
qed

lemma additional_step_fixed:
  assumes step: "additional_step f r3 = Inr (PDict r4)"
    and ih: "\<And>ap ap'. dict_get r3 ''additionalProperties'' = Some (PDict ap) \<Longrightarrow>
               f (PDict ap) = Inr ap' \<Longrightarrow> is_dict ap' \<and> f ap' = Inr ap'"
  shows "additional_step f r4 = Inr (PDict r4)"
proof (cases "\<exists>ap. dict_get r3 ''additionalProperties'' = Some (PDict ap)")
  case False
  with step have "r4 = r3"
    by (auto simp: additional_step_def split: option.splits pyval.splits)
  with False show ?thesis
    by (auto simp: additional_step_def split: option.splits pyval.splits)
next
  case True
  then obtain ap where ap: "dict_get r3 ''additionalProperties'' = Some (PDict ap)" by blast
  with step obtain ap' where a': "f (PDict ap) = Inr ap'"
    and r4: "r4 = dict_set ''additionalProperties'' ap' r3"
    by (auto simp: additional_step_def split: sum.splits)
  from ih [OF ap a'] obtain d' where d': "ap' = PDict d'" and fp: "f ap' = Inr ap'"
    by (cases ap') auto
  have "dict_get r4 ''additionalProperties'' = Some (PDict d')"
    using r4 d' by (simp add: dict_get_set)
  with fp d' show ?thesis by (simp add: additional_step_def dict_set_triv)
qed

lemma map_values_fixed:
  assumes "\<And>k v v'. (k, v) \<in> set props \<Longrightarrow> f v = Inr v' \<Longrightarrow> f v' = Inr v'"
    and "map_values f props = Inr props'"
  shows "map_values f props' = Inr props'"
  using assms
proof (induction props arbitrary: props')
  case Nil
  then show ?case by simp
next
  case (Cons p props)
  obtain k v where p: "p = (k, v)" by (cases p)
  from Cons.prems(2) p obtain v' ps' where v': "f v = Inr v'"
    and ps': "map_values f props = Inr ps'" and eq: "props' = (k, v') # ps'"
    by (auto split: sum.splits)
  have "f v' = Inr v'" using Cons.prems(1) [of k v v'] p v' by simp
  moreover have "map_values f ps' = Inr ps'"
    using Cons.IH [OF _ ps'] Cons.prems(1) by auto
  ultimately show ?case using eq by simp
qed

lemma normalize_schema_fixed:
  "normalize_schema s = Inr r \<Longrightarrow> normalize_schema r = Inr r"
proof (induction s arbitrary: r rule: normalize_schema.induct)
  case (1 schema)
  from "1.prems" obtain r0 r2 r3 where s0: "ensure_type schema = Inr r0"
    and s2: "object_step normalize_schema r0 = Inr r2"
    and s3: "items_step normalize_schema r2 = Inr r3"
    and s4: "additional_step normalize_schema r3 = Inr r"
    by (rule normalize_schema_Inr_steps)
  from s4 obtain r4 where r: "r = PDict r4"
    using additional_step_is_dict by blast
  note s4 = s4 [unfolded r]
  have get4: "dict_get r4 k = dict_get r3 k" if "k \<noteq> ''additionalProperties''" for k
    using s4 that by (rule additional_step_get)
  have get3: "dict_get r3 k = dict_get r2 k" if "k \<noteq> ''items''" for k
    using s3 that by (rule items_step_get)
  have get2: "dict_get r2 k = dict_get r0 k" if "k \<noteq> ''properties''" "k \<noteq> ''required''" for k
    using s2 that by (rule object_step_get)
  have a: "ensure_type r4 = Inr r4"
  proof -
    from s0 have "typed r0" by (rule ensure_type_typed)
    then consider (valid) s where "s \<in> set valid_types" "dict_get r0 ''type'' = Some (PStr s)"
      | (enum) "dict_get r0 ''type'' = None" "dict_get r0 ''additionalProperties'' = None"
      by (auto simp: typed_def)
    then show ?thesis
    proof cases
      case valid
      then have "typed r4" by (auto simp: typed_def get4 get3 get2)
      then show ?thesis by (rule typed_ensure_type)
    next
      case enum
      from s2 enum(1) have "r2 = r0" by (simp add: object_step_def)
      moreover from s3 enum(1) \<open>r2 = r0\<close> have "r3 = r2" by (simp add: items_step_def)
      moreover from s4 enum(2) \<open>r2 = r0\<close> \<open>r3 = r2\<close> have "r4 = r3"
        by (simp add: additional_step_def)
      ultimately show ?thesis using \<open>typed r0\<close> by (simp add: typed_ensure_type)
    qed
  qed
  have b: "object_step normalize_schema r4 = Inr r4"
  proof (rule object_step_fixed [OF s2])
    fix props props'
    assume ty: "dict_get r0 ''type'' = Some (PStr ''object'')"
      and pr: "dict_get (ensure_object_fields r0) ''properties'' = Some (PDict props)"
      and mv: "map_values normalize_schema props = Inr props'"
    show "map_values normalize_schema props' = Inr props'"
      using "1.IH"(1) [OF s0 ty refl pr refl] mv by (rule map_values_fixed)
  next
    show "dict_get r4 ''type'' = dict_get r2 ''type''" by (simp add: get4 get3)
    show "dict_get r4 ''properties'' = dict_get r2 ''properties''" by (simp add: get4 get3)
    show "dict_get r4 ''required'' \<noteq> None" if "dict_get r2 ''required'' \<noteq> None"
      using that by (simp add: get4 get3)
  qed
  have c: "items_step normalize_schema r4 = Inr r4"
  proof (rule items_step_fixed [OF s3])
    fix items'
    assume "dict_get r2 ''type'' = Some (PStr ''array'')" "has_key r2 ''items''"
      and "normalize_schema (the (dict_get r2 ''items'')) = Inr items'"
    then show "normalize_schema items' = Inr items'"
      using "1.IH"(2) [OF s0 s2 [unfolded object_step_def]] by simp
  next
    show "dict_get r4 ''type'' = dict_get r3 ''type''" by (simp add: get4)
    show "dict_get r4 ''items'' = dict_get r3 ''items''" by (simp add: get4)
  qed
  have d: "additional_step normalize_schema r4 = Inr (PDict r4)"
  proof (rule additional_step_fixed [OF s4])
    fix ap ap'
    assume ap: "dict_get r3 ''additionalProperties'' = Some (PDict ap)"
      and n: "normalize_schema (PDict ap) = Inr ap'"
    from n have "is_dict ap'" using normalize_schema_is_dict by fastforce
    moreover have "normalize_schema ap' = Inr ap'"
      using "1.IH"(3) [OF s0 s2 [unfolded object_step_def] s3 [unfolded items_step_def] ap refl n] .
    ultimately show "is_dict ap' \<and> normalize_schema ap' = Inr ap'" by simp
  qed
  show ?case unfolding r normalize_schema_steps by (simp add: a b c d)
qed simp_all

text \<open>
  Claim C2.  The schema normalizer is idempotent: for every input value \<open>s\<close>, mapping or
  not, normalizing the result of \<^verbatim>\<open>_normalize_schema(s)\<close> gives that result again.
  Where the first call raises, the composition raises the same error; where it returns
  \<open>r\<close>, the second call returns \<open>r\<close>.
\<close>

theorem normalize_schema_idempotent:
  "(case normalize_schema s of Inl e \<Rightarrow> Inl e | Inr r \<Rightarrow> normalize_schema r) = normalize_schema s"
  by (cases "normalize_schema s") (simp_all add: normalize_schema_fixed)

section \<open>The format mapper: properties\<close>

subsection \<open>The loop, tool by tool\<close>

lemma tools_loop_function:
  assumes "kind t = KFunction" and "function_spec t = Some fs"
  shows "tools_loop f (t # ts) out =
     (case normalize_schema (PDict (fn_parameters fs)) of
        Inl e \<Rightarrow> Inl e
      | Inr p \<Rightarrow> tools_loop f ts
          (out @ [function_decl (fn_name fs) (or_empty (fn_description fs)) p]))"
  using assms by (simp add: Let_def)

lemma tools_loop_mcp_native:
  assumes "kind t = KMcp" and "mcp_spec t = Some m"
  shows "tools_loop True (t # ts) out =
     (case normalize_schema (PDict (mcp_input_schema m)) of
        Inl e \<Rightarrow> Inl e
      | Inr p \<Rightarrow> tools_loop True ts
          (out @ [PDict [(''type'', PStr ''mcp''), (''server'', PStr (mcp_server_id m)),
                         (''name'', PStr (mcp_name m)), (''parameters'', p)]]))"
  using assms by (simp add: Let_def)

lemma tools_loop_mcp_encoded:
  assumes "kind t = KMcp" and "mcp_spec t = Some m"
  shows "tools_loop False (t # ts) out =
     (case normalize_schema (PDict (mcp_input_schema m)) of
        Inl e \<Rightarrow> Inl e
      | Inr p \<Rightarrow> tools_loop False ts
          (out @ [function_decl (encode (mcp_server_id m) (mcp_name m))
                    (or_empty (mcp_description m) @ '' [MCP server='' @ mcp_server_id m @ '']'')
                    p]))"
  using assms by (simp add: Let_def cong: sum.case_cong)

lemma tools_loop_builtin:
  assumes "kind t = KBuiltin" and "builtin_spec t = Some b"
  shows "tools_loop f (t # ts) out =
     tools_loop f ts (out @ [PDict (dict_update [(''type'', PStr (bi_type b))] (bi_config b))])"
  using assms by (simp add: Let_def)

lemma tools_loop_skip:
  assumes "kind t = KFunction \<longrightarrow> function_spec t = None"
    and "kind t = KMcp \<longrightarrow> mcp_spec t = None"
    and "kind t = KBuiltin \<longrightarrow> builtin_spec t = None"
  shows "tools_loop f (t # ts) out = tools_loop f ts out"
  using assms by (cases "kind t") simp_all

declare tools_loop.simps(2) [simp del]

lemma tools_loop_step:
  "tools_loop f (t # ts) out =
     (case tools_loop f [t] [] of Inl e \<Rightarrow> Inl e | Inr d \<Rightarrow> tools_loop f ts (out @ d))"
proof (cases "kind t")
  case KFunction
  show ?thesis
  proof (cases "function_spec t")
    case None
    with KFunction show ?thesis by (simp add: tools_loop_skip)
  next
    case (Some fs)
    with KFunction show ?thesis by (simp add: tools_loop_function split: sum.splits)
  qed
next
  case KMcp
  show ?thesis
  proof (cases "mcp_spec t")
    case None
    with KMcp show ?thesis by (simp add: tools_loop_skip)
  next
    case (Some m)
    with KMcp show ?thesis
      by (cases f) (simp_all add: tools_loop_mcp_native tools_loop_mcp_encoded split: sum.splits)
  qed
next
  case KBuiltin
  show ?thesis
  proof (cases "builtin_spec t")
    case None
    with KBuiltin show ?thesis by (simp add: tools_loop_skip)
  next
    case (Some b)
    with KBuiltin show ?thesis by (simp add: tools_loop_builtin)
  qed
qed

lemma tools_loop_single_length:
  "tools_loop f [t] [] = Inr d \<Longrightarrow> length d \<le> 1"
proof (cases "kind t")
  case KFunction
  then show "tools_loop f [t] [] = Inr d \<Longrightarrow> length d \<le> 1"
    by (cases "function_spec t")
      (auto simp: tools_loop_skip tools_loop_function split: sum.splits)
next
  case KMcp
  then show "tools_loop f [t] [] = Inr d \<Longrightarrow> length d \<le> 1"
    by (cases "mcp_spec t"; cases f)
      (auto simp: tools_loop_skip tools_loop_mcp_native tools_loop_mcp_encoded
        split: sum.splits)
next
  case KBuiltin
  then show "tools_loop f [t] [] = Inr d \<Longrightarrow> length d \<le> 1"
    by (cases "builtin_spec t") (auto simp: tools_loop_skip tools_loop_builtin)
qed

lemma tools_loop_step_Inl:
  "tools_loop f [t] [] = Inl e \<Longrightarrow> tools_loop f (t # ts) out = Inl e"
  by (subst tools_loop_step) simp

lemma tools_loop_step_Inr:
  "tools_loop f [t] [] = Inr d \<Longrightarrow> tools_loop f (t # ts) out = tools_loop f ts (out @ d)"
  by (subst tools_loop_step) simp

lemma tools_loop_acc:
  "tools_loop f ts out =
     (case tools_loop f ts [] of Inl e \<Rightarrow> Inl e | Inr d \<Rightarrow> Inr (out @ d))"
proof (induction ts arbitrary: out)
  case Nil
  show ?case by simp
next
  case (Cons t ts)
  show ?case
  proof (cases "tools_loop f [t] []")
    case (Inl e)
    then have "tools_loop f (t # ts) out = Inl e" and "tools_loop f (t # ts) [] = Inl e"
      by (rule tools_loop_step_Inl)+
    then show ?thesis by simp
  next
    case (Inr d)
    have "tools_loop f (t # ts) out = tools_loop f ts (out @ d)"
      using Inr by (rule tools_loop_step_Inr)
    moreover have "tools_loop f (t # ts) [] = tools_loop f ts d"
      using tools_loop_step_Inr [OF Inr, of ts "[]"] by simp
    ultimately show ?thesis
      using Cons.IH [of "out @ d"] Cons.IH [of d] by (simp split: sum.splits)
  qed
qed

lemma to_openai_tools_Nil: "to_openai_tools [] f = Inr []"
  by (simp add: to_openai_tools_def)

lemma to_openai_tools_Cons:
  "to_openai_tools (t # ts) f =
     (case to_openai_tools [t] f of
        Inl e \<Rightarrow> Inl e
      | Inr d \<Rightarrow> (case to_openai_tools ts f of Inl e \<Rightarrow> Inl e | Inr ds \<Rightarrow> Inr (d @ ds)))"
proof (cases "tools_loop f [t] []")
  case (Inl e)
  then have "tools_loop f (t # ts) [] = Inl e"
    by (rule tools_loop_step_Inl)
  with Inl show ?thesis by (simp add: to_openai_tools_def)
next
  case (Inr d)
  have "tools_loop f (t # ts) [] = tools_loop f ts d"
    using tools_loop_step_Inr [OF Inr, of ts "[]"] by simp
  also have "\<dots> = (case tools_loop f ts [] of Inl e \<Rightarrow> Inl e | Inr ds \<Rightarrow> Inr (d @ ds))"
    by (rule tools_loop_acc)
  finally show ?thesis using Inr by (simp add: to_openai_tools_def)
qed

lemma to_openai_tools_append:
  "to_openai_tools (xs @ ys) f =
     (case to_openai_tools xs f of
        Inl e \<Rightarrow> Inl e
      | Inr a \<Rightarrow> (case to_openai_tools ys f of Inl e \<Rightarrow> Inl e | Inr b \<Rightarrow> Inr (a @ b)))"
proof (induction xs)
  case Nil
  show ?case by (simp add: to_openai_tools_Nil split: sum.splits)
next
  case (Cons x xs)
  have "to_openai_tools ((x # xs) @ ys) f =
      (case to_openai_tools [x] f of
         Inl e \<Rightarrow> Inl e
       | Inr d \<Rightarrow> (case to_openai_tools (xs @ ys) f of
                     Inl e \<Rightarrow> Inl e | Inr ds \<Rightarrow> Inr (d @ ds)))"
    using to_openai_tools_Cons [of x "xs @ ys" f] by simp
  moreover have "to_openai_tools (x # xs) f =
      (case to_openai_tools [x] f of
         Inl e \<Rightarrow> Inl e
       | Inr d \<Rightarrow> (case to_openai_tools xs f of Inl e \<Rightarrow> Inl e | Inr ds \<Rightarrow> Inr (d @ ds)))"
    by (rule to_openai_tools_Cons)
  ultimately show ?case
    by (simp only: Cons.IH) (simp split: sum.splits)
qed

lemma to_openai_tools_insert:
  assumes "to_openai_tools pre f = Inr a" and "to_openai_tools [t] f = Inr d"
    and "to_openai_tools post f = Inr b"
  shows "to_openai_tools (pre @ t # post) f = Inr (a @ d @ b)"
proof -
  have "to_openai_tools (t # post) f = Inr (d @ b)"
    by (subst to_openai_tools_Cons) (simp add: assms)
  then show ?thesis
    by (subst to_openai_tools_append) (simp add: assms)
qed

lemma to_openai_tools_single_length:
  "to_openai_tools [t] f = Inr d \<Longrightarrow> length d \<le> 1"
  unfolding to_openai_tools_def by (rule tools_loop_single_length)

lemma to_openai_tools_single_function:
  assumes "kind t = KFunction" and "function_spec t = Some fs"
  shows "to_openai_tools [t] f =
     (case normalize_schema (PDict (fn_parameters fs)) of
        Inl e \<Rightarrow> Inl e
      | Inr p \<Rightarrow> Inr [function_decl (fn_name fs) (or_empty (fn_description fs)) p])"
  unfolding to_openai_tools_def
  by (subst tools_loop_function [OF assms]) (simp split: sum.splits)

lemma to_openai_tools_single_mcp_native:
  assumes "kind t = KMcp" and "mcp_spec t = Some m"
  shows "to_openai_tools [t] True =
     (case normalize_schema (PDict (mcp_input_schema m)) of
        Inl e \<Rightarrow> Inl e
      | Inr p \<Rightarrow> Inr [PDict [(''type'', PStr ''mcp''), (''server'', PStr (mcp_server_id m)),
                         (''name'', PStr (mcp_name m)), (''parameters'', p)]])"
  unfolding to_openai_tools_def
  by (subst tools_loop_mcp_native [OF assms]) (simp split: sum.splits)

lemma to_openai_tools_single_mcp_encoded:
  assumes "kind t = KMcp" and "mcp_spec t = Some m"
  shows "to_openai_tools [t] False =
     (case normalize_schema (PDict (mcp_input_schema m)) of
        Inl e \<Rightarrow> Inl e
      | Inr p \<Rightarrow> Inr [function_decl (encode (mcp_server_id m) (mcp_name m))
                    (or_empty (mcp_description m) @ '' [MCP server='' @ mcp_server_id m @ '']'')
                    p])"
  unfolding to_openai_tools_def
  by (subst tools_loop_mcp_encoded [OF assms]) (simp split: sum.splits cong: sum.case_cong)

lemma to_openai_tools_single_builtin:
  assumes "kind t = KBuiltin" and "builtin_spec t = Some b"
  shows "to_openai_tools [t] f =
     Inr [PDict (dict_update [(''type'', PStr (bi_type b))] (bi_config b))]"
  unfolding to_openai_tools_def
  by (subst tools_loop_builtin [OF assms]) simp

lemma to_openai_tools_single_skip:
  assumes "kind t = KFunction \<longrightarrow> function_spec t = None"
    and "kind t = KMcp \<longrightarrow> mcp_spec t = None"
    and "kind t = KBuiltin \<longrightarrow> builtin_spec t = None"
  shows "to_openai_tools [t] f = Inr []"
  unfolding to_openai_tools_def
  by (subst tools_loop_skip [OF assms]) simp

lemma dict_update_Cons:
  "dict_update item ((k, v) # config) = dict_update (dict_set k v item) config"
  by (simp add: dict_update_def)

lemma dict_get_absent: "k \<notin> fst ` set d \<Longrightarrow> dict_get d k = None"
  by (simp add: dict_get_def map_of_eq_None_iff)

lemma dict_get_dict_update:
  "distinct (map fst config) \<Longrightarrow>
   dict_get (dict_update item config) k =
     (case dict_get config k of Some v \<Rightarrow> Some v | None \<Rightarrow> dict_get item k)"
proof (induction config arbitrary: item)
  case Nil
  show ?case by (simp add: dict_update_def dict_get_def)
next
  case (Cons p config)
  obtain k' v' where p: "p = (k', v')" by (cases p)
  from Cons.prems p have d: "distinct (map fst config)" and n: "k' \<notin> fst ` set config"
    by auto
  have "dict_get (dict_update item (p # config)) k =
      (case dict_get config k of Some v \<Rightarrow> Some v | None \<Rightarrow> dict_get (dict_set k' v' item) k)"
    unfolding p dict_update_Cons by (rule Cons.IH [OF d])
  also have "\<dots> = (case dict_get (p # config) k of Some v \<Rightarrow> Some v | None \<Rightarrow> dict_get item k)"
  proof (cases "k = k'")
    case True
    with n have "dict_get config k = None" by (simp add: dict_get_absent)
    with True p show ?thesis by (simp add: dict_get_set) (simp add: dict_get_def)
  next
    case False
    then have "dict_get (dict_set k' v' item) k = dict_get item k"
      by (simp add: dict_get_set)
    moreover have "dict_get (p # config) k = dict_get config k"
      using False p by (simp add: dict_get_def)
    ultimately show ?thesis by (simp cong: option.case_cong)
  qed
  finally show ?case .
qed

text \<open>
  The part of claim C4 that holds: when the normalizer returns on its input schema, an mcp
  tool with its payload, mapped with \<^verbatim>\<open>supports_mcp_native=False\<close>,
  gives a function declaration named \<^verbatim>\<open>mcp::{server_id}::{name}\<close>, described by the
  original description (empty if absent) followed by \<^verbatim>\<open> [MCP server={server_id}]\<close>, with
  the normalized input schema as parameters; it stands in the output between the
  declarations of the tools before and after it.
\<close>

lemma mcp_encoded_declaration:
  assumes "kind t = KMcp" and "mcp_spec t = Some m"
    and "normalize_schema (PDict (mcp_input_schema m)) = Inr p"
    and "to_openai_tools pre False = Inr a" and "to_openai_tools post False = Inr b"
  shows "to_openai_tools (pre @ t # post) False =
     Inr (a @
          [PDict [(''type'', PStr ''function''),
                  (''function'',
                   PDict [(''name'', PStr (''mcp::'' @ mcp_server_id m @ ''::'' @ mcp_name m)),
                          (''description'',
                           PStr ((case mcp_description m of None \<Rightarrow> [] | Some d \<Rightarrow> d) @
                                 '' [MCP server='' @ mcp_server_id m @ '']'')),
                          (''parameters'', p)])]] @
          b)"
proof -
  have "or_empty (mcp_description m) = (case mcp_description m of None \<Rightarrow> [] | Some d \<Rightarrow> d)"
    by (cases "mcp_description m") simp_all
  then have "to_openai_tools [t] False =
     Inr [PDict [(''type'', PStr ''function''),
                  (''function'',
                   PDict [(''name'', PStr (''mcp::'' @ mcp_server_id m @ ''::'' @ mcp_name m)),
                          (''description'',
                           PStr ((case mcp_description m of None \<Rightarrow> [] | Some d \<Rightarrow> d) @
                                 '' [MCP server='' @ mcp_server_id m @ '']'')),
                          (''parameters'', p)])]]"
    by (simp add: to_openai_tools_single_mcp_encoded [OF assms(1,2)] assms(3)
        function_decl_def encode_def)
  then show ?thesis
    using to_openai_tools_insert [OF assms(4) _ assms(5)] by simp
qed

lemmas normalize_eval =
  normalize_schema.simps(1) ensure_type_def ensure_object_fields_def not_in_valid_types_def
  valid_types_def has_key_def dict_get_def dict_set_def Let_def

lemma normalize_schema_empty:
  "normalize_schema (PDict []) = Inr (PDict [(''type'', PStr ''string'')])"
  by (simp add: normalize_eval)

lemma mcp_encoded_declaration_example:
  "to_openai_tools
     [\<lparr>kind = KMcp, function_spec = None,
       mcp_spec = Some \<lparr>mcp_server_id = ''srv1'', mcp_name = ''lookup'',
                         mcp_description = None, mcp_input_schema = [],
                         mcp_result_schema = None\<rparr>,
       builtin_spec = None\<rparr>] False =
   Inr [PDict [(''type'', PStr ''function''),
               (''function'',
                PDict [(''name'', PStr ''mcp::srv1::lookup''),
                       (''description'', PStr '' [MCP server=srv1]''),
                       (''parameters'', PDict [(''type'', PStr ''string'')])])]]"
  using mcp_encoded_declaration
    [where t = "\<lparr>kind = KMcp, function_spec = None,
       mcp_spec = Some \<lparr>mcp_server_id = ''srv1'', mcp_name = ''lookup'',
                         mcp_description = None, mcp_input_schema = [],
                         mcp_result_schema = None\<rparr>,
       builtin_spec = None\<rparr>"
     and m = "\<lparr>mcp_server_id = ''srv1'', mcp_name = ''lookup'',
                         mcp_description = None, mcp_input_schema = [],
                         mcp_result_schema = None\<rparr>"
     and p = "PDict [(''type'', PStr ''string'')]"
     and pre = "[]" and post = "[]" and a = "[]" and b = "[]"]
  by (simp add: normalize_schema_empty to_openai_tools_Nil)

text \<open>
  Claim C4: an mcp tool with its payload need not give a declaration.  An input schema
  that gives \<^verbatim>\<open>type\<close> as a list (a nullable type, \<^verbatim>\<open>["string", "null"]\<close>) makes
  the normalizer raise at \<^verbatim>\<open>result["type"] not in valid_types\<close>, and the mapper with it:
  nothing is emitted for the tool.
\<close>

theorem mcp_encoded_raises:
  "to_openai_tools
     [\<lparr>kind = KMcp, function_spec = None,
       mcp_spec = Some \<lparr>mcp_server_id = ''srv1'', mcp_name = ''lookup'',
                         mcp_description = None,
                         mcp_input_schema = [(''type'', PList [PStr ''string'', PStr ''null''])],
                         mcp_result_schema = None\<rparr>,
       builtin_spec = None\<rparr>] False = Inl TypeError"
  by (simp add: to_openai_tools_def tools_loop.simps(2) normalize_eval)

text \<open>
  Claim C3, as stated, fails: a \<^verbatim>\<open>type\<close> key in the config replaces the builtin's
  type, since \<^verbatim>\<open>item.update(config)\<close> stores every config pair over the item.
\<close>

theorem builtin_type_override_counterexample:
  "to_openai_tools
     [\<lparr>kind = KBuiltin, function_spec = None, mcp_spec = None,
       builtin_spec = Some \<lparr>bi_type = ''web_search'',
                             bi_config = [(''type'', PStr ''other'')]\<rparr>\<rparr>] False =
   Inr [PDict [(''type'', PStr ''other'')]]
   \<and> dict_get [(''type'', PStr ''other'')] ''type'' \<noteq> Some (PStr ''web_search'')"
  by (simp add: to_openai_tools_def tools_loop.simps(2) Let_def dict_update_def dict_set_def
      dict_get_def)

text \<open>
  Claim C3, amended.  A builtin tool with its payload gives the mapping
  \<^verbatim>\<open>{type: <builtin type>}\<close> with the config merged on top: every config key has the
  config's value, and \<^verbatim>\<open>type\<close> has the builtin's type when the config has no
  \<^verbatim>\<open>type\<close> key.  No other key is present.
\<close>

theorem builtin_declaration:
  assumes "kind t = KBuiltin" and "builtin_spec t = Some b"
    and "distinct (map fst (bi_config b))"
    and "to_openai_tools pre f = Inr a" and "to_openai_tools post f = Inr c"
  shows "\<exists>item. to_openai_tools (pre @ t # post) f = Inr (a @ [PDict item] @ c) \<and>
     (\<forall>k. dict_get item k =
        (case dict_get (bi_config b) k of
           Some v \<Rightarrow> Some v
         | None \<Rightarrow> if k = ''type'' then Some (PStr (bi_type b)) else None))"
proof -
  define item where "item = dict_update [(''type'', PStr (bi_type b))] (bi_config b)"
  have "to_openai_tools [t] f = Inr [PDict item]"
    unfolding item_def using assms(1,2) by (rule to_openai_tools_single_builtin)
  then have "to_openai_tools (pre @ t # post) f = Inr (a @ [PDict item] @ c)"
    using to_openai_tools_insert [OF assms(4) _ assms(5)] by simp
  moreover have "dict_get item k =
        (case dict_get (bi_config b) k of
           Some v \<Rightarrow> Some v
         | None \<Rightarrow> if k = ''type'' then Some (PStr (bi_type b)) else None)" for k
    unfolding item_def dict_get_dict_update [OF assms(3)]
    by (simp add: dict_get_def cong: option.case_cong)
  ultimately show ?thesis by blast
qed

theorem builtin_declaration_witness:
  "to_openai_tools
     [\<lparr>kind = KBuiltin, function_spec = None, mcp_spec = None,
       builtin_spec = Some \<lparr>bi_type = ''web_search'',
                             bi_config = [(''max_results'', PInt 5)]\<rparr>\<rparr>] True =
   Inr [PDict [(''type'', PStr ''web_search''), (''max_results'', PInt 5)]]
   \<and> dict_get [(''type'', PStr ''web_search''), (''max_results'', PInt 5)] ''type'' =
       Some (PStr ''web_search'')"
  using builtin_declaration
    [where t = "\<lparr>kind = KBuiltin, function_spec = None, mcp_spec = None,
       builtin_spec = Some \<lparr>bi_type = ''web_search'',
                             bi_config = [(''max_results'', PInt 5)]\<rparr>\<rparr>"
     and b = "\<lparr>bi_type = ''web_search'', bi_config = [(''max_results'', PInt 5)]\<rparr>"
     and pre = "[]" and post = "[]" and a = "[]" and c = "[]" and f = True]
  by (simp add: to_openai_tools_Nil to_openai_tools_def tools_loop.simps(2) Let_def
      dict_update_def dict_set_def dict_get_def)

text \<open>
  Claim C6: the mapper raises on a well-typed tool list.  A function tool whose parameters
  give \<^verbatim>\<open>type\<close> as a list (a nullable type, \<^verbatim>\<open>["string", "null"]\<close>) reaches
  \<^verbatim>\<open>result["type"] not in valid_types\<close>, which hashes the list.
\<close>

theorem to_openai_tools_raises:
  "to_openai_tools
     [\<lparr>kind = KFunction,
       function_spec = Some \<lparr>fn_name = ''search'', fn_description = None,
                              fn_parameters = [(''type'', PList [PStr ''string'', PStr ''null''])],
                              fn_strict = True\<rparr>,
       mcp_spec = None, builtin_spec = None\<rparr>] False = Inl TypeError"
  by (simp add: to_openai_tools_def tools_loop.simps(2) normalize_eval)

text \<open>The part of claim C6 that holds: a tool without the payload of its kind adds
  nothing to the output and never raises.\<close>

lemma to_openai_tools_skip:
  assumes "kind t = KFunction \<longrightarrow> function_spec t = None"
    and "kind t = KMcp \<longrightarrow> mcp_spec t = None"
    and "kind t = KBuiltin \<longrightarrow> builtin_spec t = None"
  shows "to_openai_tools (pre @ t # post) f = to_openai_tools (pre @ post) f"
proof -
  have "to_openai_tools (t # post) f = to_openai_tools post f"
    by (subst to_openai_tools_Cons)
      (simp add: to_openai_tools_single_skip [OF assms] split: sum.splits)
  then show ?thesis
    by (simp add: to_openai_tools_append [of pre "t # post"] to_openai_tools_append [of pre post]
        cong: sum.case_cong)
qed

text \<open>
  Claim C7.  When the mapper returns, each tool has given at most one declaration, the one
  the mapper gives for that tool alone, and the output is these declarations in the order
  of the tools; so it is no longer than the input.
\<close>

theorem to_openai_tools_order:
  assumes "to_openai_tools tools f = Inr out"
  shows "length out \<le> length tools \<and>
     (\<exists>ds. length ds = length tools \<and> out = concat ds \<and>
        (\<forall>i < length tools. to_openai_tools [tools ! i] f = Inr (ds ! i) \<and> length (ds ! i) \<le> 1))"
  using assms
proof (induction tools arbitrary: out)
  case Nil
  then show ?case by (simp add: to_openai_tools_Nil)
next
  case (Cons t ts)
  from Cons.prems obtain d rest where d: "to_openai_tools [t] f = Inr d"
    and rest: "to_openai_tools ts f = Inr rest" and out: "out = d @ rest"
    by (subst (asm) to_openai_tools_Cons) (auto split: sum.splits)
  from Cons.IH [OF rest] obtain ds where len: "length rest \<le> length ts"
    and ds: "length ds = length ts" "rest = concat ds"
    and each: "\<forall>i < length ts. to_openai_tools [ts ! i] f = Inr (ds ! i) \<and> length (ds ! i) \<le> 1"
    by blast
  have d1: "length d \<le> 1" using d by (rule to_openai_tools_single_length)
  have "\<forall>i < length (t # ts).
      to_openai_tools [(t # ts) ! i] f = Inr ((d # ds) ! i) \<and> length ((d # ds) ! i) \<le> 1"
  proof (intro allI impI)
    fix i assume "i < length (t # ts)"
    then show "to_openai_tools [(t # ts) ! i] f = Inr ((d # ds) ! i) \<and> length ((d # ds) ! i) \<le> 1"
      using d d1 each by (cases i) simp_all
  qed
  moreover have "length (d # ds) = length (t # ts)" "out = concat (d # ds)"
    using ds out by simp_all
  moreover have "length out \<le> length (t # ts)" using out d1 len by simp
  ultimately show ?case by blast
qed

lemma to_openai_tools_example:
  "to_openai_tools [tool_search, tool_broken, tool_lookup] True =
     Inr [function_decl ''search'' [] (PDict [(''type'', PStr ''string'')]),
          PDict [(''type'', PStr ''mcp''), (''server'', PStr ''srv1''),
                 (''name'', PStr ''lookup''),
                 (''parameters'', PDict [(''type'', PStr ''string'')])]]"
  by (simp add: to_openai_tools_def tools_loop.simps(2) tool_search_def tool_broken_def
      tool_lookup_def normalize_schema_empty)

theorem to_openai_tools_order_witness:
  "length [function_decl ''search'' [] (PDict [(''type'', PStr ''string'')]),
          PDict [(''type'', PStr ''mcp''), (''server'', PStr ''srv1''),
                 (''name'', PStr ''lookup''),
                 (''parameters'', PDict [(''type'', PStr ''string'')])]]
     \<le> length [tool_search, tool_broken, tool_lookup]
   \<and> to_openai_tools [tool_search, tool_broken, tool_lookup] True =
     Inr [function_decl ''search'' [] (PDict [(''type'', PStr ''string'')]),
          PDict [(''type'', PStr ''mcp''), (''server'', PStr ''srv1''),
                 (''name'', PStr ''lookup''),
                 (''parameters'', PDict [(''type'', PStr ''string'')])]]"
  using to_openai_tools_order [OF to_openai_tools_example] to_openai_tools_example
  by simp

text \<open>
  Claim C9.  The declaration the mapper gives for a tool depends only on the tool's kind
  and on the payload of that kind: two tools that agree on both can stand for one another
  anywhere in the list, whatever the other payloads hold.
\<close>

theorem to_openai_tools_ignores_other_payloads:
  assumes "kind t1 = kind t2"
    and "kind t1 = KFunction \<longrightarrow> function_spec t1 = function_spec t2"
    and "kind t1 = KMcp \<longrightarrow> mcp_spec t1 = mcp_spec t2"
    and "kind t1 = KBuiltin \<longrightarrow> builtin_spec t1 = builtin_spec t2"
  shows "to_openai_tools (pre @ t1 # post) f = to_openai_tools (pre @ t2 # post) f"
proof -
  have single: "to_openai_tools [t1] f = to_openai_tools [t2] f"
  proof (cases "kind t1")
    case KFunction
    with assms have k2: "kind t2 = KFunction" and eq: "function_spec t1 = function_spec t2"
      by simp_all
    show ?thesis
    proof (cases "function_spec t1")
      case None
      with KFunction k2 eq show ?thesis by (simp add: to_openai_tools_single_skip)
    next
      case (Some fs)
      with KFunction k2 eq show ?thesis
        by (simp add: to_openai_tools_single_function [where fs = fs])
    qed
  next
    case KMcp
    with assms have k2: "kind t2 = KMcp" and eq: "mcp_spec t1 = mcp_spec t2"
      by simp_all
    show ?thesis
    proof (cases "mcp_spec t1")
      case None
      with KMcp k2 eq show ?thesis by (simp add: to_openai_tools_single_skip)
    next
      case (Some m)
      with KMcp k2 eq show ?thesis
        by (cases f)
          (simp_all add: to_openai_tools_single_mcp_native [where m = m]
            to_openai_tools_single_mcp_encoded [where m = m])
    qed
  next
    case KBuiltin
    with assms have k2: "kind t2 = KBuiltin" and eq: "builtin_spec t1 = builtin_spec t2"
      by simp_all
    show ?thesis
    proof (cases "builtin_spec t1")
      case None
      with KBuiltin k2 eq show ?thesis by (simp add: to_openai_tools_single_skip)
    next
      case (Some b)
      with KBuiltin k2 eq show ?thesis
        by (simp add: to_openai_tools_single_builtin [where b = b])
    qed
  qed
  have "to_openai_tools (t1 # post) f = to_openai_tools (t2 # post) f"
    by (subst (1 2) to_openai_tools_Cons) (simp add: single)
  then show ?thesis
    by (simp add: to_openai_tools_append [of pre "t1 # post"]
        to_openai_tools_append [of pre "t2 # post"] cong: sum.case_cong)
qed

theorem to_openai_tools_ignores_other_payloads_witness:
  "to_openai_tools
     [tool_search,
      \<lparr>kind = KMcp,
       function_spec = Some \<lparr>fn_name = ''stray'', fn_description = None,
                              fn_parameters = [], fn_strict = False\<rparr>,
       mcp_spec = mcp_spec tool_lookup,
       builtin_spec = Some \<lparr>bi_type = ''web_search'', bi_config = []\<rparr>\<rparr>] False =
   to_openai_tools [tool_search, tool_lookup] False"
  using to_openai_tools_ignores_other_payloads
    [where ?t1.0 = "\<lparr>kind = KMcp,
       function_spec = Some \<lparr>fn_name = ''stray'', fn_description = None,
                              fn_parameters = [], fn_strict = False\<rparr>,
       mcp_spec = mcp_spec tool_lookup,
       builtin_spec = Some \<lparr>bi_type = ''web_search'', bi_config = []\<rparr>\<rparr>"
     and ?t2.0 = tool_lookup and pre = "[tool_search]" and post = "[]" and f = False]
  by (simp add: tool_lookup_def)

section \<open>The call name codec: properties\<close>

lemma contains_sep_iff: "contains_sep s \<longleftrightarrow> (\<exists>p q. s = p @ ''::'' @ q)"
proof (induction s rule: contains_sep.induct)
  case (1 a b s)
  show ?case
  proof
    assume "contains_sep (a # b # s)"
    then consider "a = CHR '':''" "b = CHR '':''" | "contains_sep (b # s)" by auto
    then show "\<exists>p q. a # b # s = p @ ''::'' @ q"
    proof cases
      case 1
      then have "a # b # s = [] @ ''::'' @ s" by simp
      then show ?thesis by blast
    next
      case 2
      with 1 obtain p q where "b # s = p @ ''::'' @ q" by blast
      then have "a # b # s = (a # p) @ ''::'' @ q" by simp
      then show ?thesis by blast
    qed
  next
    assume "\<exists>p q. a # b # s = p @ ''::'' @ q"
    then obtain p q where pq: "a # b # s = p @ ''::'' @ q" by blast
    show "contains_sep (a # b # s)"
    proof (cases p)
      case Nil
      with pq show ?thesis by simp
    next
      case (Cons x p')
      with pq have "b # s = p' @ ''::'' @ q" by simp
      with 1 have "contains_sep (b # s)" by blast
      then show ?thesis by simp
    qed
  qed
qed (auto simp: append_eq_Cons_conv)

lemma match_tool_plain:
  "n \<noteq> [] \<Longrightarrow> newline \<notin> set n \<Longrightarrow> match_tool n = Some n"
proof -
  assume n: "n \<noteq> []" "newline \<notin> set n"
  then have tw: "takeWhile (\<lambda>c. c \<noteq> newline) n = n"
    and dw: "dropWhile (\<lambda>c. c \<noteq> newline) n = []"
    by auto
  show ?thesis unfolding match_tool_def Let_def tw dw at_end_def using n by simp
qed

lemma match_rest_sep: "match_rest (''::'' @ n) = match_tool n"
  by simp

lemma match_rest_no_sep:
  assumes "s \<noteq> []" and "\<not> contains_sep s" and "last s \<noteq> CHR '':''"
  shows "match_rest (s @ ''::'' @ n) = None"
proof (cases s)
  case Nil
  with assms show ?thesis by simp
next
  case (Cons a s')
  show ?thesis
  proof (cases s')
    case Nil
    with Cons assms show ?thesis by simp
  next
    case (Cons b s'')
    with \<open>s = a # s'\<close> assms show ?thesis by auto
  qed
qed

lemma match_server_roundtrip:
  assumes "s \<noteq> []" and "\<not> contains_sep s" and "last s \<noteq> CHR '':''"
    and "newline \<notin> set s" and "n \<noteq> []" and "newline \<notin> set n"
  shows "match_server acc (s @ ''::'' @ n) = Some (acc @ s, n)"
  using assms(1-4)
proof (induction s arbitrary: acc)
  case Nil
  then show ?case by simp
next
  case (Cons c s)
  show ?case
  proof (cases "s = []")
    case True
    then show ?thesis
      using Cons.prems assms(5,6) match_tool_plain [of n] by simp
  next
    case False
    have ns: "\<not> contains_sep s"
      using Cons.prems(2) False by (cases s) auto
    have ls: "last s \<noteq> CHR '':''" using Cons.prems(3) False by simp
    have "match_rest (s @ ''::'' @ n) = None"
      using False ns ls by (rule match_rest_no_sep)
    moreover have "match_server (acc @ [c]) (s @ ''::'' @ n) = Some ((acc @ [c]) @ s, n)"
      using Cons.IH [OF False ns ls] Cons.prems(4) by simp
    ultimately show ?thesis using Cons.prems(4) by auto
  qed
qed

lemma decode_encode_general:
  assumes "server_id \<noteq> []" and "\<not> contains_sep server_id" and "last server_id \<noteq> CHR '':''"
    and "newline \<notin> set server_id" and "name \<noteq> []" and "newline \<notin> set name"
  shows "decode_maybe_mcp (encode server_id name) = (Some server_id, name)"
proof -
  have "mcp_pat_match (encode server_id name) = match_server [] (server_id @ ''::'' @ name)"
    by (simp add: mcp_pat_match_def encode_def)
  also have "\<dots> = Some ([] @ server_id, name)"
    using assms by (rule match_server_roundtrip)
  finally show ?thesis by (simp add: decode_maybe_mcp_def)
qed

lemmas codec_eval =
  decode_maybe_mcp_def mcp_pat_match_def encode_def match_tool_def at_end_def newline_def Let_def

text \<open>
  Claim C1, as stated, fails.  A server id that ends in a colon moves the first
  \<^verbatim>\<open>::\<close> one place to the left; an empty server id or an empty name leaves a group
  of the pattern without a character, so nothing matches; a name that ends in a newline
  loses it, since \<^verbatim>\<open>$\<close> matches in front of a final newline.
\<close>

theorem decode_encode_counterexample:
  "\<not> contains_sep ''a:'' \<and> \<not> contains_sep ''b'' \<and>
   decode_maybe_mcp (encode ''a:'' ''b'') = (Some ''a'', '':b'') \<and>
   decode_maybe_mcp (encode [] ''x'') = (None, ''mcp::::x'') \<and>
   decode_maybe_mcp (encode ''srv'' []) = (None, ''mcp::srv::'') \<and>
   decode_maybe_mcp (encode ''srv'' [CHR ''x'', newline]) = (Some ''srv'', ''x'')"
  by (simp add: codec_eval)

text \<open>
  Claim C1, amended.  For every non-empty \<open>server_id\<close> and non-empty \<open>name\<close>, neither
  containing \<^verbatim>\<open>::\<close> nor a newline, with \<open>server_id\<close> not ending in a colon, decoding
  the encoded name gives back the pair.
\<close>

theorem decode_encode_roundtrip:
  assumes "server_id \<noteq> []" and "name \<noteq> []"
    and "\<not> contains_sep server_id" and "\<not> contains_sep name"
    and "last server_id \<noteq> CHR '':''"
    and "newline \<notin> set server_id" and "newline \<notin> set name"
  shows "decode_maybe_mcp (encode server_id name) = (Some server_id, name)"
  using assms(1,3,5,6,2,7) by (rule decode_encode_general)

theorem decode_encode_roundtrip_witness:
  "decode_maybe_mcp (encode ''srv1'' ''lookup'') = (Some ''srv1'', ''lookup'')
   \<and> encode ''srv1'' ''lookup'' = ''mcp::srv1::lookup''"
  using decode_encode_roundtrip [of "''srv1''" "''lookup''"]
  by (simp add: newline_def) (simp add: encode_def)

lemma match_server_nonempty:
  "match_server acc s = Some (server, tool) \<Longrightarrow> server \<noteq> []"
  by (induction acc s rule: match_server.induct) (auto split: if_splits option.splits)

lemma decode_server_nonempty:
  "decode_maybe_mcp name = (Some server, tool) \<Longrightarrow> server \<noteq> []"
  by (auto simp: decode_maybe_mcp_def mcp_pat_match_def split: option.splits if_splits
      dest: match_server_nonempty)

lemma decode_None:
  "fst (decode_maybe_mcp name) = None \<Longrightarrow> decode_maybe_mcp name = (None, name)"
  by (auto simp: decode_maybe_mcp_def split: option.splits)

lemmas call_eval =
  normalize_tool_call_def new_ToolCall_def get_or_none_def get_default_def py_or_def

lemma is_str_as_str: "is_str v \<Longrightarrow> \<exists>s. v = PStr s"
  by (cases v) simp_all

text \<open>
  Claim C5.  For a raw record whose name is a string (or is missing, which reads as the
  empty string) and whose id and arguments, where present, are strings,
  \<^verbatim>\<open>normalize_tool_call\<close> returns a \<^verbatim>\<open>ToolCall\<close>: when the name decodes under the
  mcp pattern, its name is the decoded tool name and its server id the decoded server id;
  otherwise its name is the raw name and its server id is absent.  A missing id gives the
  empty string and a present one is kept; missing arguments give \<^verbatim>\<open>"{}"\<close> and present
  ones are kept.
\<close>

theorem normalize_tool_call_fields:
  assumes "get_default raw ''name'' (PStr []) = PStr name"
    and "\<forall>v. dict_get raw ''id'' = Some v \<longrightarrow> is_str v"
    and "\<forall>v. dict_get raw ''arguments'' = Some v \<longrightarrow> is_str v"
  shows "\<exists>tc. normalize_tool_call raw = Inr tc \<and>
     (\<forall>server tool. decode_maybe_mcp name = (Some server, tool) \<longrightarrow>
        tc_name tc = tool \<and> tc_mcp_server_id tc = Some server) \<and>
     (fst (decode_maybe_mcp name) = None \<longrightarrow> tc_name tc = name \<and> tc_mcp_server_id tc = None) \<and>
     (dict_get raw ''id'' = None \<longrightarrow> tc_id tc = []) \<and>
     (\<forall>i. dict_get raw ''id'' = Some (PStr i) \<longrightarrow> tc_id tc = i) \<and>
     (dict_get raw ''arguments'' = None \<longrightarrow> tc_arguments_json tc = ''{}'') \<and>
     (\<forall>a. dict_get raw ''arguments'' = Some (PStr a) \<longrightarrow> tc_arguments_json tc = a)"
proof -
  obtain i where i: "py_or (get_or_none raw ''id'') (PStr []) = PStr i"
    and i_none: "dict_get raw ''id'' = None \<longrightarrow> i = []"
    and i_some: "\<forall>j. dict_get raw ''id'' = Some (PStr j) \<longrightarrow> i = j"
  proof (cases "dict_get raw ''id''")
    case None
    then show ?thesis by (intro that [of "[]"]) (simp_all add: get_or_none_def py_or_def)
  next
    case (Some v)
    with assms(2) obtain j where "v = PStr j" using is_str_as_str by blast
    with Some show ?thesis by (intro that [of j]) (simp_all add: get_or_none_def py_or_def)
  qed
  obtain a where a: "get_default raw ''arguments'' (PStr ''{}'') = PStr a"
    and a_none: "dict_get raw ''arguments'' = None \<longrightarrow> a = ''{}''"
    and a_some: "\<forall>b. dict_get raw ''arguments'' = Some (PStr b) \<longrightarrow> a = b"
  proof (cases "dict_get raw ''arguments''")
    case None
    then show ?thesis by (intro that [of "''{}''"]) (simp_all add: get_default_def)
  next
    case (Some v)
    with assms(3) obtain b where "v = PStr b" using is_str_as_str by blast
    with Some show ?thesis by (intro that [of b]) (simp_all add: get_default_def)
  qed
  obtain server tool where d: "decode_maybe_mcp name = (server, tool)"
    by (cases "decode_maybe_mcp name")
  show ?thesis
  proof (cases server)
    case None
    with d have "decode_maybe_mcp name = (None, name)" using decode_None [of name] by simp
    with assms(1) i a i_none i_some a_none a_some show ?thesis
      by (simp add: normalize_tool_call_def new_ToolCall_def)
  next
    case (Some s)
    with d have "s \<noteq> []" using decode_server_nonempty by blast
    with assms(1) d Some i a i_none i_some a_none a_some show ?thesis
      by (simp add: normalize_tool_call_def new_ToolCall_def)
  qed
qed

theorem normalize_tool_call_fields_witness:
  "normalize_tool_call
     [(''id'', PStr ''c1''), (''name'', PStr ''mcp::srv1::lookup''),
      (''arguments'', PStr ''{\"q\":1}'')] =
   Inr \<lparr>tc_id = ''c1'', tc_name = ''lookup'',
        tc_arguments_json = ''{\"q\":1}'', tc_mcp_server_id = Some ''srv1''\<rparr>
   \<and> normalize_tool_call [(''name'', PStr ''search'')] =
   Inr \<lparr>tc_id = [], tc_name = ''search'',
        tc_arguments_json = ''{}'', tc_mcp_server_id = None\<rparr>"
  using normalize_tool_call_fields
      [of "[(''id'', PStr ''c1''), (''name'', PStr ''mcp::srv1::lookup''),
            (''arguments'', PStr ''{\"q\":1}'')]" "''mcp::srv1::lookup''"]
    normalize_tool_call_fields [of "[(''name'', PStr ''search'')]" "''search''"]
  by (simp add: call_eval dict_get_def codec_eval)

text \<open>
  Claim C10, as stated, fails.  Arguments that map to \<^verbatim>\<open>None\<close> are not replaced by
  \<^verbatim>\<open>"{}"\<close>: \<^verbatim>\<open>raw.get("arguments", "{}")\<close> gives \<^verbatim>\<open>None\<close>, which goes to the
  constructor as it is.  But no \<^verbatim>\<open>ToolCall\<close> with \<^verbatim>\<open>arguments_json = None\<close> results:
  the field is a string, and the constructor raises.
\<close>

theorem normalize_tool_call_null_arguments_counterexample:
  "get_default [(''name'', PStr ''search''), (''arguments'', PNone)] ''arguments'' (PStr ''{}'')
     = PNone \<and>
   normalize_tool_call [(''name'', PStr ''search''), (''arguments'', PNone)] =
     Inl ValidationError"
  by (simp add: call_eval dict_get_def codec_eval)

text \<open>
  Claim C10, amended.  A field that is present but null is not treated as a missing one in
  the same way for both fields.  An id that maps to \<^verbatim>\<open>None\<close>, or to any falsy value,
  becomes the empty string, as a missing id does.  Arguments that map to \<^verbatim>\<open>None\<close>, or
  to anything that is not a string, make the call raise \<^verbatim>\<open>ValidationError\<close>;
  \<^verbatim>\<open>"{}"\<close> stands in only for a missing key.
\<close>

theorem normalize_tool_call_null_fields:
  assumes "get_default raw ''name'' (PStr []) = PStr name"
  shows "(\<forall>v. dict_get raw ''id'' = Some v \<and> \<not> truthy v \<and>
            (\<forall>a. dict_get raw ''arguments'' = Some a \<longrightarrow> is_str a) \<longrightarrow>
            (\<exists>tc. normalize_tool_call raw = Inr tc \<and> tc_id tc = [])) \<and>
     (dict_get raw ''arguments'' = Some PNone \<longrightarrow>
        normalize_tool_call raw = Inl ValidationError) \<and>
     (\<forall>a. dict_get raw ''arguments'' = Some a \<and> \<not> is_str a \<longrightarrow>
        normalize_tool_call raw = Inl ValidationError) \<and>
     (dict_get raw ''arguments'' = None \<and>
        (\<forall>v. dict_get raw ''id'' = Some v \<and> truthy v \<longrightarrow> is_str v) \<longrightarrow>
        (\<exists>tc. normalize_tool_call raw = Inr tc \<and> tc_arguments_json tc = ''{}''))"
proof -
  obtain server tool where d: "decode_maybe_mcp name = (server, tool)"
    by (cases "decode_maybe_mcp name")
  define n where "n = (if (case server of None \<Rightarrow> False | Some s \<Rightarrow> s \<noteq> [])
                        then PStr tool else PStr name)"
  have n: "\<exists>s. n = PStr s" by (simp add: n_def)
  have call: "normalize_tool_call raw =
      new_ToolCall (py_or (get_or_none raw ''id'') (PStr [])) n
        (get_default raw ''arguments'' (PStr ''{}'')) server"
    using assms d by (simp add: normalize_tool_call_def n_def)
  have falsy_id: "\<exists>tc. normalize_tool_call raw = Inr tc \<and> tc_id tc = []"
    if "dict_get raw ''id'' = Some v" and "\<not> truthy v"
      and "\<forall>a. dict_get raw ''arguments'' = Some a \<longrightarrow> is_str a" for v
  proof -
    have "py_or (get_or_none raw ''id'') (PStr []) = PStr []"
      using that(1,2) by (simp add: get_or_none_def py_or_def)
    moreover have "\<exists>a. get_default raw ''arguments'' (PStr ''{}'') = PStr a"
      using that(3) by (cases "dict_get raw ''arguments''")
        (auto simp: get_default_def dest: is_str_as_str)
    ultimately show ?thesis using n by (auto simp: call new_ToolCall_def)
  qed
  have bad_arguments: "normalize_tool_call raw = Inl ValidationError"
    if "dict_get raw ''arguments'' = Some a" and "\<not> is_str a" for a
  proof -
    have "get_default raw ''arguments'' (PStr ''{}'') = a"
      using that(1) by (simp add: get_default_def)
    moreover have "as_str a = None" using that(2) by (cases a) simp_all
    ultimately show ?thesis by (simp add: call new_ToolCall_def split: option.splits)
  qed
  have missing_arguments: "\<exists>tc. normalize_tool_call raw = Inr tc \<and> tc_arguments_json tc = ''{}''"
    if "dict_get raw ''arguments'' = None"
      and "\<forall>v. dict_get raw ''id'' = Some v \<and> truthy v \<longrightarrow> is_str v"
  proof -
    have "get_default raw ''arguments'' (PStr ''{}'') = PStr ''{}''"
      using that(1) by (simp add: get_default_def)
    moreover have "\<exists>i. py_or (get_or_none raw ''id'') (PStr []) = PStr i"
      using that(2) by (cases "dict_get raw ''id''")
        (auto simp: get_or_none_def py_or_def dest: is_str_as_str)
    ultimately show ?thesis using n by (auto simp: call new_ToolCall_def)
  qed
  show ?thesis
    using falsy_id bad_arguments [of PNone] bad_arguments missing_arguments by simp
qed

theorem normalize_tool_call_null_fields_witness:
  "normalize_tool_call [(''name'', PStr ''search''), (''id'', PNone)] =
     Inr \<lparr>tc_id = [], tc_name = ''search'',
          tc_arguments_json = ''{}'', tc_mcp_server_id = None\<rparr>
   \<and> normalize_tool_call [(''name'', PStr ''search''), (''id'', PInt 0),
                             (''arguments'', PStr ''{\"q\":1}'')] =
     Inr \<lparr>tc_id = [], tc_name = ''search'',
          tc_arguments_json = ''{\"q\":1}'', tc_mcp_server_id = None\<rparr>
   \<and> normalize_tool_call [(''name'', PStr ''search''), (''id'', PStr ''c1''),
                             (''arguments'', PNone)] = Inl ValidationError"
  using normalize_tool_call_null_fields
      [of "[(''name'', PStr ''search''), (''id'', PNone)]" "''search''"]
    normalize_tool_call_null_fields
      [of "[(''name'', PStr ''search''), (''id'', PInt 0), (''arguments'', PStr ''{\"q\":1}'')]"
          "''search''"]
    normalize_tool_call_null_fields
      [of "[(''name'', PStr ''search''), (''id'', PStr ''c1''), (''arguments'', PNone)]"
          "''search''"]
  by (simp add: call_eval dict_get_def codec_eval)

section \<open>The normalizer leaves its input alone\<close>

lemma unchanged_length:
  assumes "unchanged h h'"
  shows "length h \<le> length h'"
proof -
  from assms have "length (take (length h) h') = length h"
    by (simp add: unchanged_def)
  then show ?thesis by simp
qed

lemma unchanged_refl: "unchanged h h"
  by (simp add: unchanged_def)

lemma unchanged_trans:
  assumes "unchanged a b" and "unchanged b c"
  shows "unchanged a c"
proof -
  from assms(1) have le: "length a \<le> length b" by (rule unchanged_length)
  have "take (length a) c = take (length a) (take (length b) c)"
    using le by (simp add: min_def)
  also have "\<dots> = take (length a) b" using assms(2) by (simp add: unchanged_def)
  also have "\<dots> = a" using assms(1) by (simp add: unchanged_def)
  finally show ?thesis by (simp add: unchanged_def)
qed

lemma unchanged_alloc: "alloc obj h = (a, h') \<Longrightarrow> unchanged h h' \<and> a = length h"
  by (auto simp: alloc_def unchanged_def)

lemma length_set_item: "length (set_item r k v h) = length h"
  by (simp add: set_item_def)

lemma unchanged_set_item:
  "length h0 \<le> r \<Longrightarrow> unchanged h0 h \<Longrightarrow> unchanged h0 (set_item r k v h)"
  by (simp add: unchanged_def set_item_def)

text \<open>A call keeps the frame when it leaves every object of the store it starts from as
  it was.\<close>

definition keeps :: "(heap \<Rightarrow> hval \<Rightarrow> (herror + hval) \<times> heap) \<Rightarrow> bool" where
  "keeps f = (\<forall>h v. unchanged h (snd (f h v)))"

lemma keepsD: "keeps f \<Longrightarrow> f h v = (x, h') \<Longrightarrow> unchanged h h'"
  unfolding keeps_def by (metis snd_conv)

lemma map_values_heap_unchanged:
  assumes "keeps f"
  shows "unchanged h (snd (map_values_heap f h kvs))"
proof (induction kvs arbitrary: h)
  case Nil
  show ?case by (simp add: unchanged_refl)
next
  case (Cons p kvs)
  obtain k v where p: "p = (k, v)" by (cases p)
  obtain x h1 where f: "f h v = (x, h1)" by (cases "f h v")
  with assms have u1: "unchanged h h1" by (rule keepsD)
  show ?case
  proof (cases x)
    case (Inl e)
    with p f u1 show ?thesis by simp
  next
    case (Inr v')
    obtain y h2 where m: "map_values_heap f h1 kvs = (y, h2)"
      by (cases "map_values_heap f h1 kvs")
    with Cons.IH [of h1] have "unchanged h1 h2" by simp
    with u1 have "unchanged h h2" by (rule unchanged_trans)
    with p f Inr m show ?thesis by (cases y) simp_all
  qed
qed

lemma ensure_type_heap_unchanged:
  assumes "length h0 \<le> r" and "unchanged h0 h"
  shows "unchanged h0 (snd (ensure_type_heap r h))"
  using assms
  by (auto simp: ensure_type_heap_def Let_def unchanged_set_item split: sum.splits)

lemma ensure_object_fields_heap_unchanged:
  assumes "length h0 \<le> r" and "unchanged h0 h"
  shows "unchanged h0 (ensure_object_fields_heap r h)"
proof -
  define h1 where "h1 = (if map_of (items_at h r) ''properties'' = None
      then (let (a, h') = alloc (HDict []) h in set_item r ''properties'' (HRef a) h')
      else h)"
  have u1: "unchanged h0 h1"
  proof (cases "map_of (items_at h r) ''properties'' = None")
    case True
    have "unchanged h (h @ [HDict []])" by (simp add: unchanged_def)
    with assms(2) have "unchanged h0 (h @ [HDict []])" by (rule unchanged_trans)
    with assms(1) True show ?thesis
      by (simp add: h1_def alloc_def unchanged_set_item)
  next
    case False
    then have "h1 = h" by (auto simp: h1_def)
    with assms(2) show ?thesis by simp
  qed
  have "unchanged h0 (if map_of (items_at h1 r) ''required'' = None
          then (let (a, h') = alloc (HList []) h1 in set_item r ''required'' (HRef a) h')
          else h1)"
  proof (cases "map_of (items_at h1 r) ''required'' = None")
    case True
    have "unchanged h1 (h1 @ [HList []])" by (simp add: unchanged_def)
    with u1 have "unchanged h0 (h1 @ [HList []])" by (rule unchanged_trans)
    with assms(1) True show ?thesis
      by (simp add: alloc_def unchanged_set_item)
  next
    case False
    with u1 show ?thesis by auto
  qed
  then show ?thesis
    unfolding ensure_object_fields_heap_def Let_def h1_def .
qed

lemma unchanged_append: "unchanged h0 h \<Longrightarrow> unchanged h0 (h @ [obj])"
  by (rule unchanged_trans [where b = h]) (simp_all add: unchanged_def)

lemma object_step_heap_unchanged:
  assumes f: "keeps f" and r: "length h0 \<le> r" and h: "unchanged h0 h"
  shows "unchanged h0 (snd (object_step_heap f r h))"
proof (cases "map_of (items_at h r) ''type'' = Some (HStr ''object'')")
  case False
  with h show ?thesis by (simp add: object_step_heap_def)
next
  case True
  define h1 where "h1 = ensure_object_fields_heap r h"
  have u1: "unchanged h0 h1"
    unfolding h1_def using r h by (rule ensure_object_fields_heap_unchanged)
  show ?thesis
  proof (cases "map_of (items_at h1 r) ''properties''")
    case None
    with True u1 show ?thesis by (simp add: object_step_heap_def h1_def)
  next
    case (Some pv)
    show ?thesis
    proof (cases "as_dict h1 pv")
      case None
      with True Some u1 show ?thesis by (simp add: object_step_heap_def h1_def)
    next
      case (Some props)
      obtain x h2 where m: "map_values_heap f h1 props = (x, h2)"
        by (cases "map_values_heap f h1 props")
      have "unchanged h1 h2"
        using map_values_heap_unchanged [OF f, of h1 props] m by simp
      with u1 have u2: "unchanged h0 h2" by (rule unchanged_trans)
      show ?thesis
      proof (cases x)
        case (Inl e)
        with True \<open>map_of (items_at h1 r) ''properties'' = Some pv\<close> Some m u2 show ?thesis
          by (simp add: object_step_heap_def h1_def)
      next
        case (Inr props')
        have "unchanged h0 (set_item r ''properties'' (HRef (length h2)) (h2 @ [HDict props']))"
          using r u2 by (simp add: unchanged_set_item unchanged_append)
        with True \<open>map_of (items_at h1 r) ''properties'' = Some pv\<close> Some m Inr show ?thesis
          by (simp add: object_step_heap_def h1_def alloc_def)
      qed
    qed
  qed
qed

lemma items_step_heap_unchanged:
  assumes f: "keeps f" and r: "length h0 \<le> r" and h: "unchanged h0 h"
  shows "unchanged h0 (snd (items_step_heap f r h))"
proof (cases "map_of (items_at h r) ''type'' = Some (HStr ''array'') \<and>
    map_of (items_at h r) ''items'' \<noteq> None")
  case False
  with h show ?thesis by (auto simp: items_step_heap_def)
next
  case True
  obtain x h1 where c: "f h (the (map_of (items_at h r) ''items'')) = (x, h1)"
    by (cases "f h (the (map_of (items_at h r) ''items''))")
  with f have "unchanged h h1" by (rule keepsD)
  with h have u1: "unchanged h0 h1" by (rule unchanged_trans)
  with r have "unchanged h0 (set_item r ''items'' v h1)" for v
    by (simp add: unchanged_set_item)
  with True c u1 show ?thesis
    by (cases x) (auto simp: items_step_heap_def)
qed

lemma additional_step_heap_unchanged:
  assumes f: "keeps f" and r: "length h0 \<le> r" and h: "unchanged h0 h"
  shows "unchanged h0 (snd (additional_step_heap f r h))"
proof (cases "map_of (items_at h r) ''additionalProperties''")
  case None
  with h show ?thesis by (simp add: additional_step_heap_def)
next
  case (Some av)
  show ?thesis
  proof (cases "as_dict h av")
    case None
    with Some h show ?thesis by (simp add: additional_step_heap_def)
  next
    case (Some ap)
    obtain x h1 where c: "f h av = (x, h1)" by (cases "f h av")
    with f have "unchanged h h1" by (rule keepsD)
    with h have u1: "unchanged h0 h1" by (rule unchanged_trans)
    with r have "unchanged h0 (set_item r ''additionalProperties'' v h1)" for v
      by (simp add: unchanged_set_item)
    with \<open>map_of (items_at h r) ''additionalProperties'' = Some av\<close> Some c u1 show ?thesis
      by (cases x) (simp_all add: additional_step_heap_def)
  qed
qed

lemma normalize_schema_heap_keeps: "keeps (normalize_schema_heap depth)"
proof (induction depth)
  case 0
  show ?case by (simp add: keeps_def unchanged_refl)
next
  case (Suc depth)
  show ?case
    unfolding keeps_def
  proof (intro allI)
    fix h schema
    show "unchanged h (snd (normalize_schema_heap (Suc depth) h schema))"
    proof (cases "as_dict h schema")
      case None
      then show ?thesis by (simp add: unchanged_refl)
    next
      case (Some d)
      define r where "r = length h"
      define h0 where "h0 = h @ [HDict d]"
      have r: "length h \<le> r" by (simp add: r_def)
      have u0: "unchanged h h0" by (simp add: h0_def unchanged_def)
      obtain x1 h1 where s1: "ensure_type_heap r h0 = (x1, h1)"
        by (cases "ensure_type_heap r h0")
      have u1: "unchanged h h1"
        using ensure_type_heap_unchanged [OF r u0] s1 by simp
      obtain x2 h2 where s2: "object_step_heap (normalize_schema_heap depth) r h1 = (x2, h2)"
        by (cases "object_step_heap (normalize_schema_heap depth) r h1")
      have u2: "unchanged h h2"
        using object_step_heap_unchanged [OF Suc.IH r u1] s2 by simp
      obtain x3 h3 where s3: "items_step_heap (normalize_schema_heap depth) r h2 = (x3, h3)"
        by (cases "items_step_heap (normalize_schema_heap depth) r h2")
      have u3: "unchanged h h3"
        using items_step_heap_unchanged [OF Suc.IH r u2] s3 by simp
      obtain x4 h4 where s4: "additional_step_heap (normalize_schema_heap depth) r h3 = (x4, h4)"
        by (cases "additional_step_heap (normalize_schema_heap depth) r h3")
      have u4: "unchanged h h4"
        using additional_step_heap_unchanged [OF Suc.IH r u3] s4 by simp
      have "normalize_schema_heap (Suc depth) h schema =
          (case x1 of Inl e \<Rightarrow> (Inl e, h1) | Inr u \<Rightarrow>
           (case x2 of Inl e \<Rightarrow> (Inl e, h2) | Inr u \<Rightarrow>
            (case x3 of Inl e \<Rightarrow> (Inl e, h3) | Inr u \<Rightarrow>
             (case x4 of Inl e \<Rightarrow> (Inl e, h4) | Inr u \<Rightarrow> (Inr (HRef r), h4)))))"
        using Some s1 s2 s3 s4
        by (simp add: alloc_def r_def [symmetric] h0_def [symmetric] split: sum.splits)
      with u1 u2 u3 u4 show ?thesis by (simp split: sum.splits)
    qed
  qed
qed

lemma normalize_schema_heap_example:
  "normalize_schema_heap 5 example_store (HRef 0) =
     (Inr (HRef 4),
      example_store @
      [HDict [(''properties'', HRef 7), (''additionalProperties'', HRef 8),
              (''type'', HStr ''object''), (''required'', HRef 5)],
       HList [],
       HDict [(''items'', HInt 3), (''type'', HStr ''array'')],
       HDict [(''a'', HRef 6)],
       HDict [(''type'', HStr ''string'')]])"
  by code_simp

text \<open>
  Claim C8.  The normalizer never changes its input: every object that is in the store
  before the call, the schema and every dict and list reachable from it among them, is
  in the store after the call with the same contents, also when the call raises.  What the
  call adds or coerces is in the new objects; the dict it returns is one of them.
\<close>

theorem normalize_schema_heap_frame:
  "unchanged h (snd (normalize_schema_heap depth h schema)) \<and>
   (\<forall>d v. as_dict h schema = Some d \<and> fst (normalize_schema_heap depth h schema) = Inr v \<longrightarrow>
      v = HRef (length h))"
proof
  show "unchanged h (snd (normalize_schema_heap depth h schema))"
    using normalize_schema_heap_keeps [of depth] by (simp add: keeps_def)
  show "\<forall>d v. as_dict h schema = Some d \<and> fst (normalize_schema_heap depth h schema) = Inr v \<longrightarrow>
      v = HRef (length h)"
  proof (cases depth)
    case 0
    then show ?thesis by simp
  next
    case (Suc n)
    then show ?thesis
      by (auto simp: alloc_def Let_def split: sum.splits prod.splits)
  qed
qed

theorem normalize_schema_heap_frame_witness:
  "unchanged example_store (snd (normalize_schema_heap 5 example_store (HRef 0))) \<and>
   fst (normalize_schema_heap 5 example_store (HRef 0)) = Inr (HRef 4) \<and>
   length example_store = 4"
  using normalize_schema_heap_frame [of example_store 5 "HRef 0"]
  by (simp add: normalize_schema_heap_example) (simp add: example_store_def)

section \<open>The store model computes what the value model computes\<close>

text \<open>
  \<open>repr_in A h v t\<close>: in the store \<open>h\<close>, the value \<open>v\<close> stands for the tree \<open>t\<close>, and
  every object read on the way has its address in \<open>A\<close>.
\<close>

inductive repr_in :: "nat set \<Rightarrow> heap \<Rightarrow> hval \<Rightarrow> pyval \<Rightarrow> bool" for A h where
  RNone: "repr_in A h HNone PNone"
| RBool: "repr_in A h (HBool b) (PBool b)"
| RInt: "repr_in A h (HInt i) (PInt i)"
| RFloat: "repr_in A h (HFloat x) (PFloat x)"
| RStr: "repr_in A h (HStr s) (PStr s)"
| RList: "a \<in> A \<Longrightarrow> a < length h \<Longrightarrow> h ! a = HList xs \<Longrightarrow>
          list_all2 (repr_in A h) xs ts \<Longrightarrow> repr_in A h (HRef a) (PList ts)"
| RDict: "a \<in> A \<Longrightarrow> a < length h \<Longrightarrow> h ! a = HDict d \<Longrightarrow>
          list_all2 (\<lambda>kv kt. fst kv = fst kt \<and> repr_in A h (snd kv) (snd kt)) d td \<Longrightarrow>
          repr_in A h (HRef a) (PDict td)"

definition items_rel :: "nat set \<Rightarrow> heap \<Rightarrow> (string \<times> hval) list \<Rightarrow> pydict \<Rightarrow> bool" where
  "items_rel A h d td =
     list_all2 (\<lambda>kv kt. fst kv = fst kt \<and> repr_in A h (snd kv) (snd kt)) d td"

lemma repr_in_transfer:
  assumes "repr_in A h v t"
    and "\<And>a. a \<in> A \<Longrightarrow> a < length h \<Longrightarrow> a < length h' \<and> h' ! a = h ! a"
    and "A \<subseteq> B"
  shows "repr_in B h' v t"
  using assms(1)
proof (induction rule: repr_in.induct)
  case (RList a xs ts)
  have "list_all2 (repr_in B h') xs ts"
    using RList(4) by (rule list_all2_mono) simp
  with RList(1-3) assms(2,3) show ?case
    by (intro repr_in.RList) auto
next
  case (RDict a d td)
  have "list_all2 (\<lambda>kv kt. fst kv = fst kt \<and> repr_in B h' (snd kv) (snd kt)) d td"
    using RDict(4) by (rule list_all2_mono) simp
  with RDict(1-3) assms(2,3) show ?case
    by (intro repr_in.RDict) auto
qed (auto intro: repr_in.intros)

lemma items_rel_transfer:
  assumes "items_rel A h d td"
    and "\<And>a. a \<in> A \<Longrightarrow> a < length h \<Longrightarrow> a < length h' \<and> h' ! a = h ! a"
    and "A \<subseteq> B"
  shows "items_rel B h' d td"
  using assms(1) unfolding items_rel_def
  by (rule list_all2_mono) (auto intro: repr_in_transfer [OF _ assms(2,3)])

lemma items_rel_None:
  "items_rel A h d td \<Longrightarrow> (map_of d k = None) = (map_of td k = None)"
  unfolding items_rel_def
  by (induction d td rule: list_all2_induct) auto

lemma items_rel_Some:
  "items_rel A h d td \<Longrightarrow> map_of d k = Some v \<Longrightarrow> \<exists>t. map_of td k = Some t \<and> repr_in A h v t"
  unfolding items_rel_def
  by (induction d td rule: list_all2_induct) (auto split: if_splits)

lemma items_rel_update:
  "items_rel A h d td \<Longrightarrow> repr_in A h v t \<Longrightarrow>
     items_rel A h (AList.update k v d) (AList.update k t td)"
  unfolding items_rel_def
  by (induction d td rule: list_all2_induct) auto

lemma repr_in_not_in_valid_types:
  "repr_in A h v t \<Longrightarrow>
     not_in_valid_types_heap v =
       (case not_in_valid_types t of Inl e \<Rightarrow> Inl HTypeError | Inr b \<Rightarrow> Inr b)"
  by (induction rule: repr_in.induct)
    (simp_all add: not_in_valid_types_heap_def not_in_valid_types_def)

lemma repr_in_as_dict_None:
  "repr_in A h v t \<Longrightarrow> as_dict h v = None \<Longrightarrow> \<not> is_dict t"
  by (induction rule: repr_in.induct) (simp_all add: as_dict_def)

lemma repr_in_as_dict_Some:
  "repr_in A h v t \<Longrightarrow> as_dict h v = Some d \<Longrightarrow> \<exists>td. t = PDict td \<and> items_rel A h d td"
  by (induction rule: repr_in.induct)
    (auto simp: as_dict_def items_rel_def elim: list_all2_mono split: if_splits)

lemma repr_in_object_string:
  "repr_in A h v t \<Longrightarrow> (v = HStr s) = (t = PStr s)"
  by (induction rule: repr_in.induct) auto

lemma not_dict_normalize: "\<not> is_dict t \<Longrightarrow> normalize_schema t = Inr t"
  by (cases t) simp_all

text \<open>
  The dict under construction at address \<open>r\<close> stands for the items \<open>td\<close>; what its items
  refer to lies in \<open>A\<close>, below \<open>r\<close>, or was allocated after \<open>r\<close>.
\<close>

definition result_inv :: "nat set \<Rightarrow> nat \<Rightarrow> heap \<Rightarrow> pydict \<Rightarrow> bool" where
  "result_inv A r h td =
     (r < length h \<and> (\<forall>a\<in>A. a < r) \<and> (\<exists>d. h ! r = HDict d) \<and>
      items_rel (A \<union> {r<..<length h}) h (items_at h r) td)"

lemma items_at_dict: "r < length h \<Longrightarrow> h ! r = HDict d \<Longrightarrow> items_at h r = d"
  by (simp add: items_at_def as_dict_def)

lemma unchanged_nth: "unchanged h h' \<Longrightarrow> a < length h \<Longrightarrow> h' ! a = h ! a"
  unfolding unchanged_def by (metis nth_take)

lemma result_inv_unchanged:
  assumes "result_inv A r h td" and "unchanged h h'"
  shows "result_inv A r h' td"
proof -
  from assms(2) have len: "length h \<le> length h'" by (rule unchanged_length)
  from assms(1) have r: "r < length h" and A: "\<forall>a\<in>A. a < r"
    and rel: "items_rel (A \<union> {r<..<length h}) h (items_at h r) td"
    by (simp_all add: result_inv_def)
  from assms(1) obtain d where d: "h ! r = HDict d" by (auto simp: result_inv_def)
  have same: "h' ! a = h ! a" if "a < length h" for a
    using assms(2) that by (rule unchanged_nth)
  have d': "h' ! r = HDict d" using same [OF r] d by simp
  have "items_rel (A \<union> {r<..<length h'}) h' (items_at h r) td"
    using rel
  proof (rule items_rel_transfer)
    show "A \<union> {r<..<length h} \<subseteq> A \<union> {r<..<length h'}" using len by auto
  next
    fix a assume "a \<in> A \<union> {r<..<length h}" "a < length h"
    then show "a < length h' \<and> h' ! a = h ! a" using len same by auto
  qed
  moreover have "items_at h' r = items_at h r"
    using r len d d' by (simp add: items_at_dict)
  ultimately show ?thesis using r len A d' by (auto simp: result_inv_def)
qed

lemma result_inv_set_item:
  assumes "result_inv A r h td" and "repr_in (A \<union> {r<..<length h}) h v t"
  shows "result_inv A r (set_item r k v h) (dict_set k t td)"
proof -
  let ?S = "A \<union> {r<..<length h}"
  let ?h' = "set_item r k v h"
  from assms(1) have r: "r < length h" and A: "\<forall>a\<in>A. a < r"
    and rel: "items_rel ?S h (items_at h r) td"
    by (simp_all add: result_inv_def)
  have notr: "a \<noteq> r" if "a \<in> ?S" for a using that A by auto
  have keep: "a < length ?h' \<and> ?h' ! a = h ! a" if "a \<in> ?S" "a < length h" for a
    using that notr [OF that(1)] by (simp add: set_item_def)
  have "items_rel ?S h (AList.update k v (items_at h r)) (AList.update k t td)"
    using rel assms(2) by (rule items_rel_update)
  then have "items_rel ?S ?h' (AList.update k v (items_at h r)) (AList.update k t td)"
    by (rule items_rel_transfer) (use keep in auto)
  moreover have "?h' ! r = HDict (AList.update k v (items_at h r))"
    using r by (simp add: set_item_def)
  moreover have "length ?h' = length h" by (simp add: set_item_def)
  ultimately show ?thesis
    using r A by (simp add: result_inv_def items_at_dict dict_set_def)
qed

lemma result_inv_get_None:
  "result_inv A r h td \<Longrightarrow> (map_of (items_at h r) k = None) = (dict_get td k = None)"
  by (auto simp: result_inv_def dict_get_def dest: items_rel_None)

lemma result_inv_get_Some:
  "result_inv A r h td \<Longrightarrow> map_of (items_at h r) k = Some v \<Longrightarrow>
     \<exists>t. dict_get td k = Some t \<and> repr_in (A \<union> {r<..<length h}) h v t"
  by (auto simp: result_inv_def dict_get_def dest: items_rel_Some)

lemma result_inv_get_str:
  assumes "result_inv A r h td"
  shows "(map_of (items_at h r) k = Some (HStr s)) = (dict_get td k = Some (PStr s))"
proof (cases "map_of (items_at h r) k")
  case None
  with assms show ?thesis using result_inv_get_None [OF assms, of k] by simp
next
  case (Some v)
  with assms obtain t where "dict_get td k = Some t" "repr_in (A \<union> {r<..<length h}) h v t"
    using result_inv_get_Some by blast
  with Some show ?thesis using repr_in_object_string [of _ h v t s] by auto
qed

text \<open>A step of the store model against the same step of the value model.\<close>

definition step_ok :: "nat set \<Rightarrow> nat \<Rightarrow> (herror + unit) \<times> heap \<Rightarrow> error + pydict \<Rightarrow> bool" where
  "step_ok A r res pure =
     ((fst res = Inl HTypeError \<longrightarrow> pure = Inl TypeError) \<and>
      (fst res = Inr () \<longrightarrow> (\<exists>td'. pure = Inr td' \<and> result_inv A r (snd res) td')))"

lemma result_inv_set_str:
  "result_inv A r h td \<Longrightarrow> result_inv A r (set_item r k (HStr s) h) (dict_set k (PStr s) td)"
  by (rule result_inv_set_item) (auto intro: repr_in.RStr)

lemma ensure_type_heap_refines:
  assumes inv: "result_inv A r h td"
  shows "step_ok A r (ensure_type_heap r h) (ensure_type td)"
proof (cases "map_of (items_at h r) ''type''")
  case None
  have keys: "has_key td k = (map_of (items_at h r) k \<noteq> None)" for k
    using result_inv_get_None [OF inv, of k] by (simp add: has_key_get)
  show ?thesis
    using None inv
    by (simp add: step_ok_def ensure_type_heap_def ensure_type_def Let_def keys
        result_inv_set_str)
next
  case (Some v)
  then obtain t where t: "dict_get td ''type'' = Some t"
    and rep: "repr_in (A \<union> {r<..<length h}) h v t"
    using result_inv_get_Some [OF inv] by blast
  then have ty: "has_key td ''type''" by (simp add: has_key_get)
  have nv: "not_in_valid_types_heap v =
      (case not_in_valid_types t of Inl e \<Rightarrow> Inl HTypeError | Inr b \<Rightarrow> Inr b)"
    using rep by (rule repr_in_not_in_valid_types)
  show ?thesis
  proof (cases "not_in_valid_types t")
    case (Inl e)
    with nv Some t ty show ?thesis
      by (simp add: step_ok_def ensure_type_heap_def ensure_type_def Let_def)
        (cases e, simp)
  next
    case (Inr b)
    with nv Some t ty inv show ?thesis
      by (simp add: step_ok_def ensure_type_heap_def ensure_type_def Let_def
          result_inv_set_str)
  qed
qed

lemma unchanged_set_item_above:
  "r < length h \<Longrightarrow> length (set_item r k v h) = length h"
  by (simp add: set_item_def)

lemma result_inv_alloc_set:
  assumes inv: "result_inv A r h td"
    and new: "repr_in (A \<union> {r<..<Suc (length h)}) (h @ [obj]) (HRef (length h)) t"
  shows "result_inv A r (set_item r k (HRef (length h)) (h @ [obj])) (dict_set k t td)"
proof -
  have "unchanged h (h @ [obj])" by (simp add: unchanged_def)
  with inv have "result_inv A r (h @ [obj]) td" by (rule result_inv_unchanged)
  then show ?thesis using new by (intro result_inv_set_item) simp_all
qed

lemma repr_in_new_dict:
  assumes "r < length h"
  shows "repr_in (A \<union> {r<..<Suc (length h)}) (h @ [HDict []]) (HRef (length h)) (PDict [])"
  using assms by (intro repr_in.RDict [where d = "[]"]) simp_all

lemma repr_in_new_list:
  assumes "r < length h"
  shows "repr_in (A \<union> {r<..<Suc (length h)}) (h @ [HList []]) (HRef (length h)) (PList [])"
  using assms by (intro repr_in.RList [where xs = "[]"]) simp_all

lemma ensure_object_fields_heap_refines:
  assumes inv: "result_inv A r h td"
  shows "result_inv A r (ensure_object_fields_heap r h) (ensure_object_fields td)"
proof -
  define h1 where "h1 = (if map_of (items_at h r) ''properties'' = None
      then (let (a, h') = alloc (HDict []) h in set_item r ''properties'' (HRef a) h')
      else h)"
  define td1 where "td1 = (if \<not> has_key td ''properties''
      then dict_set ''properties'' (PDict []) td else td)"
  from inv have r: "r < length h" by (simp add: result_inv_def)
  have inv1: "result_inv A r h1 td1"
  proof (cases "map_of (items_at h r) ''properties'' = None")
    case True
    then have "\<not> has_key td ''properties''"
      using result_inv_get_None [OF inv, of "''properties''"] by (simp add: has_key_get)
    with True show ?thesis
      using result_inv_alloc_set [OF inv repr_in_new_dict [OF r]]
      by (simp add: h1_def td1_def alloc_def)
  next
    case False
    then have "has_key td ''properties''"
      using result_inv_get_None [OF inv, of "''properties''"] by (simp add: has_key_get)
    with False inv show ?thesis by (auto simp: h1_def td1_def)
  qed
  from inv1 have r1: "r < length h1" by (simp add: result_inv_def)
  have "result_inv A r
      (if map_of (items_at h1 r) ''required'' = None
       then (let (a, h') = alloc (HList []) h1 in set_item r ''required'' (HRef a) h')
       else h1)
      (if \<not> has_key td1 ''required'' then dict_set ''required'' (PList []) td1 else td1)"
  proof (cases "map_of (items_at h1 r) ''required'' = None")
    case True
    then have "\<not> has_key td1 ''required''"
      using result_inv_get_None [OF inv1, of "''required''"] by (simp add: has_key_get)
    with True show ?thesis
      using result_inv_alloc_set [OF inv1 repr_in_new_list [OF r1]]
      by (simp add: alloc_def)
  next
    case False
    then have "has_key td1 ''required''"
      using result_inv_get_None [OF inv1, of "''required''"] by (simp add: has_key_get)
    with False inv1 show ?thesis by auto
  qed
  then show ?thesis
    unfolding ensure_object_fields_heap_def ensure_object_fields_def Let_def h1_def td1_def .
qed

text \<open>
  What the recursive calls are to do: leave the store they start from as it was; raise
  \<^verbatim>\<open>TypeError\<close> only where the value model does; and return a value that stands for
  what the value model returns, reading only what the argument read and what the call
  allocated.
\<close>

definition refines :: "(heap \<Rightarrow> hval \<Rightarrow> (herror + hval) \<times> heap) \<Rightarrow> bool" where
  "refines f =
     (\<forall>S h v t. repr_in S h v t \<and> (\<forall>a\<in>S. a < length h) \<longrightarrow>
        unchanged h (snd (f h v)) \<and>
        (fst (f h v) = Inl HTypeError \<longrightarrow> normalize_schema t = Inl TypeError) \<and>
        (\<forall>v'. fst (f h v) = Inr v' \<longrightarrow>
           (\<exists>t'. normalize_schema t = Inr t' \<and>
              repr_in (S \<union> {length h..<length (snd (f h v))}) (snd (f h v)) v' t')))"

lemma refinesD:
  assumes "refines f" and "repr_in S h v t" and "\<forall>a\<in>S. a < length h" and "f h v = (x, h')"
  shows "unchanged h h'"
    and "x = Inl HTypeError \<Longrightarrow> normalize_schema t = Inl TypeError"
    and "x = Inr v' \<Longrightarrow> \<exists>t'. normalize_schema t = Inr t' \<and> repr_in (S \<union> {length h..<length h'}) h' v' t'"
  using assms unfolding refines_def by (metis fst_conv snd_conv)+

lemma items_rel_Cons:
  "items_rel S h ((k, v) # d) td =
     (\<exists>t td'. td = (k, t) # td' \<and> repr_in S h v t \<and> items_rel S h d td')"
  by (auto simp: items_rel_def list_all2_Cons1)

lemma items_rel_unchanged:
  assumes "items_rel S h d td" and "unchanged h h'" and "\<forall>a\<in>S. a < length h" and "S \<subseteq> S'"
  shows "items_rel S' h' d td"
  using assms(1)
proof (rule items_rel_transfer)
  fix a assume "a \<in> S" "a < length h"
  then show "a < length h' \<and> h' ! a = h ! a"
    using unchanged_nth [OF assms(2)] unchanged_length [OF assms(2)] by auto
qed (rule assms(4))

lemma repr_in_unchanged:
  assumes "repr_in S h v t" and "unchanged h h'" and "\<forall>a\<in>S. a < length h" and "S \<subseteq> S'"
  shows "repr_in S' h' v t"
  using assms(1)
proof (rule repr_in_transfer)
  fix a assume "a \<in> S" "a < length h"
  then show "a < length h' \<and> h' ! a = h ! a"
    using unchanged_nth [OF assms(2)] unchanged_length [OF assms(2)] by auto
qed (rule assms(4))

lemma map_values_heap_refines:
  assumes f: "refines f"
  shows "items_rel S h props tprops \<Longrightarrow> \<forall>a\<in>S. a < length h \<Longrightarrow>
     map_values_heap f h props = (x, h') \<Longrightarrow>
     unchanged h h' \<and>
     (x = Inl HTypeError \<longrightarrow> map_values normalize_schema tprops = Inl TypeError) \<and>
     (\<forall>props'. x = Inr props' \<longrightarrow>
        (\<exists>tprops'. map_values normalize_schema tprops = Inr tprops' \<and>
           items_rel (S \<union> {length h..<length h'}) h' props' tprops'))"
proof (induction props arbitrary: S h tprops x h')
  case Nil
  then show ?case by (auto simp: items_rel_def unchanged_refl)
next
  case (Cons p kvs)
  obtain k v where p: "p = (k, v)" by (cases p)
  from Cons.prems(1) p obtain t tkvs where tp: "tprops = (k, t) # tkvs"
    and rv: "repr_in S h v t" and rk: "items_rel S h kvs tkvs"
    by (auto simp: items_rel_Cons)
  obtain x1 h1 where c: "f h v = (x1, h1)" by (cases "f h v")
  note d = refinesD [OF f rv Cons.prems(2) c]
  show ?case
  proof (cases x1)
    case (Inl e)
    with Cons.prems(3) p c have "x = Inl e" "h' = h1" by simp_all
    with d(1) d(2) Inl tp show ?thesis by auto
  next
    case (Inr v')
    from d(3) [OF Inr] obtain t' where nt: "normalize_schema t = Inr t'"
      and rv': "repr_in (S \<union> {length h..<length h1}) h1 v' t'" by blast
    let ?S1 = "S \<union> {length h..<length h1}"
    have len1: "length h \<le> length h1" using d(1) by (rule unchanged_length)
    have S1: "\<forall>a\<in>?S1. a < length h1" using Cons.prems(2) len1 by auto
    have rk1: "items_rel ?S1 h1 kvs tkvs"
      using rk d(1) Cons.prems(2) by (rule items_rel_unchanged) simp
    obtain y h2 where m: "map_values_heap f h1 kvs = (y, h2)"
      by (cases "map_values_heap f h1 kvs")
    note ih = Cons.IH [OF rk1 S1 m]
    from ih have u12: "unchanged h1 h2" by simp
    then have len2: "length h1 \<le> length h2" by (rule unchanged_length)
    have sets: "?S1 \<union> {length h1..<length h2} = S \<union> {length h..<length h2}"
      using len1 len2 by auto
    have u: "unchanged h h2" using d(1) u12 by (rule unchanged_trans)
    show ?thesis
    proof (cases y)
      case (Inl e)
      with Cons.prems(3) p c Inr m have "x = Inl e" "h' = h2" by simp_all
      with ih Inl u tp nt show ?thesis by auto
    next
      case (Inr kvs')
      with Cons.prems(3) p c \<open>x1 = Inr v'\<close> m have x: "x = Inr ((k, v') # kvs')" "h' = h2"
        by simp_all
      from ih Inr obtain tkvs' where mt: "map_values normalize_schema tkvs = Inr tkvs'"
        and rk2: "items_rel (?S1 \<union> {length h1..<length h2}) h2 kvs' tkvs'" by auto
      have "repr_in (S \<union> {length h..<length h2}) h2 v' t'"
        using rv' u12 S1 by (rule repr_in_unchanged) (use len2 in auto)
      with rk2 have "items_rel (S \<union> {length h..<length h2}) h2 ((k, v') # kvs') ((k, t') # tkvs')"
        by (simp add: items_rel_Cons sets)
      with x u tp nt mt show ?thesis by simp
    qed
  qed
qed

lemma result_inv_bounds:
  "result_inv A r h td \<Longrightarrow> \<forall>a\<in>A \<union> {r<..<length h}. a < length h"
  by (auto simp: result_inv_def)

lemma result_inv_sets:
  assumes "result_inv A r h td" and "length h \<le> length h'"
  shows "(A \<union> {r<..<length h}) \<union> {length h..<length h'} = A \<union> {r<..<length h'}"
  using assms by (auto simp: result_inv_def)

lemma object_step_heap_refines:
  assumes f: "refines f" and inv: "result_inv A r h td"
  shows "step_ok A r (object_step_heap f r h) (object_step normalize_schema td)"
proof (cases "map_of (items_at h r) ''type'' = Some (HStr ''object'')")
  case False
  then have "dict_get td ''type'' \<noteq> Some (PStr ''object'')"
    using result_inv_get_str [OF inv] by simp
  with False inv show ?thesis
    by (simp add: step_ok_def object_step_heap_def object_step_def)
next
  case True
  then have ty: "dict_get td ''type'' = Some (PStr ''object'')"
    using result_inv_get_str [OF inv] by simp
  define h1 where "h1 = ensure_object_fields_heap r h"
  define td1 where "td1 = ensure_object_fields td"
  have inv1: "result_inv A r h1 td1"
    unfolding h1_def td1_def using inv by (rule ensure_object_fields_heap_refines)
  let ?S1 = "A \<union> {r<..<length h1}"
  show ?thesis
  proof (cases "map_of (items_at h1 r) ''properties''")
    case None
    then have "dict_get td1 ''properties'' = None"
      using result_inv_get_None [OF inv1] by simp
    with None True ty inv1 show ?thesis
      by (simp add: step_ok_def object_step_heap_def object_step_def
          h1_def [symmetric] td1_def [symmetric])
  next
    case (Some pv)
    then obtain pt where pt: "dict_get td1 ''properties'' = Some pt"
      and rp: "repr_in ?S1 h1 pv pt"
      using result_inv_get_Some [OF inv1] by blast
    show ?thesis
    proof (cases "as_dict h1 pv")
      case None
      with rp have "\<not> is_dict pt" by (rule repr_in_as_dict_None)
      then have pure_eq: "object_step normalize_schema td = Inr td1"
        using ty pt by (cases pt) (simp_all add: object_step_def td1_def [symmetric])
      have heap_eq: "object_step_heap f r h = (Inr (), h1)"
        using None Some True by (simp add: object_step_heap_def h1_def [symmetric])
      show ?thesis using pure_eq heap_eq inv1 by (simp add: step_ok_def)
    next
      case (Some props)
      with rp obtain tprops where ptd: "pt = PDict tprops" and rel: "items_rel ?S1 h1 props tprops"
        using repr_in_as_dict_Some by blast
      obtain x h2 where m: "map_values_heap f h1 props = (x, h2)"
        by (cases "map_values_heap f h1 props")
      note mv = map_values_heap_refines [OF f rel result_inv_bounds [OF inv1] m]
      from mv have u12: "unchanged h1 h2" by simp
      then have len2: "length h1 \<le> length h2" by (rule unchanged_length)
      have inv2: "result_inv A r h2 td1" using inv1 u12 by (rule result_inv_unchanged)
      have heap_eq: "object_step_heap f r h =
          (case x of Inl e \<Rightarrow> (Inl e, h2)
           | Inr props' \<Rightarrow>
               (Inr (), set_item r ''properties'' (HRef (length h2)) (h2 @ [HDict props'])))"
        using True \<open>map_of (items_at h1 r) ''properties'' = Some pv\<close> Some m
        by (simp add: object_step_heap_def h1_def [symmetric] alloc_def split: sum.splits)
      have pure_eq: "object_step normalize_schema td =
          (case map_values normalize_schema tprops of Inl e \<Rightarrow> Inl e
           | Inr props' \<Rightarrow> Inr (dict_set ''properties'' (PDict props') td1))"
        using ty pt ptd by (simp add: object_step_def td1_def [symmetric])
      show ?thesis
      proof (cases x)
        case (Inl e)
        with mv heap_eq pure_eq show ?thesis by (auto simp: step_ok_def)
      next
        case (Inr props')
        with mv obtain tprops' where mt: "map_values normalize_schema tprops = Inr tprops'"
          and rel': "items_rel (?S1 \<union> {length h1..<length h2}) h2 props' tprops'" by auto
        have rel2: "items_rel (A \<union> {r<..<length h2}) h2 props' tprops'"
          using rel' result_inv_sets [OF inv1 len2] by simp
        have r2: "r < length h2" using inv2 by (simp add: result_inv_def)
        have "items_rel (A \<union> {r<..<Suc (length h2)}) (h2 @ [HDict props']) props' tprops'"
          using rel2
          by (rule items_rel_unchanged)
            (use result_inv_bounds [OF inv2] in \<open>auto simp: unchanged_def\<close>)
        then have new: "repr_in (A \<union> {r<..<Suc (length h2)}) (h2 @ [HDict props'])
            (HRef (length h2)) (PDict tprops')"
          using r2 by (intro repr_in.RDict [where d = props']) (simp_all add: items_rel_def)
        have "result_inv A r (set_item r ''properties'' (HRef (length h2)) (h2 @ [HDict props']))
            (dict_set ''properties'' (PDict tprops') td1)"
          using inv2 new by (rule result_inv_alloc_set)
        with Inr heap_eq pure_eq mt show ?thesis by (simp add: step_ok_def)
      qed
    qed
  qed
qed

lemma items_step_heap_refines:
  assumes f: "refines f" and inv: "result_inv A r h td"
  shows "step_ok A r (items_step_heap f r h) (items_step normalize_schema td)"
proof (cases "map_of (items_at h r) ''type'' = Some (HStr ''array'') \<and>
    map_of (items_at h r) ''items'' \<noteq> None")
  case False
  then have "\<not> (dict_get td ''type'' = Some (PStr ''array'') \<and> has_key td ''items'')"
    using result_inv_get_str [OF inv] result_inv_get_None [OF inv, of "''items''"]
    by (simp add: has_key_get)
  with False inv show ?thesis
    by (auto simp: step_ok_def items_step_heap_def items_step_def)
next
  case True
  then obtain iv where iv: "map_of (items_at h r) ''items'' = Some iv" by auto
  then obtain it where it: "dict_get td ''items'' = Some it"
    and ri: "repr_in (A \<union> {r<..<length h}) h iv it"
    using result_inv_get_Some [OF inv] by blast
  from True have ty: "dict_get td ''type'' = Some (PStr ''array'')"
    using result_inv_get_str [OF inv] by simp
  obtain x h1 where c: "f h iv = (x, h1)" by (cases "f h iv")
  note d = refinesD [OF f ri result_inv_bounds [OF inv] c]
  have len1: "length h \<le> length h1" using d(1) by (rule unchanged_length)
  have inv1: "result_inv A r h1 td" using inv d(1) by (rule result_inv_unchanged)
  have heap_eq: "items_step_heap f r h =
      (case x of Inl e \<Rightarrow> (Inl e, h1) | Inr v \<Rightarrow> (Inr (), set_item r ''items'' v h1))"
    using True iv c by (simp add: items_step_heap_def split: sum.splits)
  have pure_eq: "items_step normalize_schema td =
      (case normalize_schema it of Inl e \<Rightarrow> Inl e
       | Inr items' \<Rightarrow> Inr (dict_set ''items'' items' td))"
    using ty it by (simp add: items_step_def has_key_get)
  show ?thesis
  proof (cases x)
    case (Inl e)
    with d(2) heap_eq pure_eq show ?thesis by (auto simp: step_ok_def)
  next
    case (Inr v')
    from d(3) [OF Inr] obtain t' where nt: "normalize_schema it = Inr t'"
      and rv: "repr_in ((A \<union> {r<..<length h}) \<union> {length h..<length h1}) h1 v' t'" by blast
    then have "repr_in (A \<union> {r<..<length h1}) h1 v' t'"
      using result_inv_sets [OF inv len1] by simp
    with inv1 have "result_inv A r (set_item r ''items'' v' h1) (dict_set ''items'' t' td)"
      by (rule result_inv_set_item)
    with Inr heap_eq pure_eq nt show ?thesis by (simp add: step_ok_def)
  qed
qed

lemma additional_step_heap_refines:
  assumes f: "refines f" and inv: "result_inv A r h td"
  shows "(fst (additional_step_heap f r h) = Inl HTypeError \<longrightarrow>
            additional_step normalize_schema td = Inl TypeError) \<and>
         (fst (additional_step_heap f r h) = Inr () \<longrightarrow>
            (\<exists>td'. additional_step normalize_schema td = Inr (PDict td') \<and>
               result_inv A r (snd (additional_step_heap f r h)) td'))"
proof (cases "map_of (items_at h r) ''additionalProperties''")
  case None
  then have "dict_get td ''additionalProperties'' = None"
    using result_inv_get_None [OF inv] by simp
  with None inv show ?thesis
    by (simp add: additional_step_heap_def additional_step_def)
next
  case (Some av)
  then obtain avt where avt_eq: "dict_get td ''additionalProperties'' = Some avt"
    and ra: "repr_in (A \<union> {r<..<length h}) h av avt"
    using result_inv_get_Some [OF inv] by blast
  show ?thesis
  proof (cases "as_dict h av")
    case None
    with ra have "\<not> is_dict avt" by (rule repr_in_as_dict_None)
    then have "additional_step normalize_schema td = Inr (PDict td)"
      using avt_eq by (cases avt) (simp_all add: additional_step_def)
    moreover have "additional_step_heap f r h = (Inr (), h)"
      using None Some by (simp add: additional_step_heap_def)
    ultimately show ?thesis using inv by simp
  next
    case (Some ap)
    with ra obtain tap where atd: "avt = PDict tap"
      using repr_in_as_dict_Some by blast
    obtain x h1 where c: "f h av = (x, h1)" by (cases "f h av")
    note d = refinesD [OF f ra result_inv_bounds [OF inv] c]
    have len1: "length h \<le> length h1" using d(1) by (rule unchanged_length)
    have inv1: "result_inv A r h1 td" using inv d(1) by (rule result_inv_unchanged)
    have heap_eq: "additional_step_heap f r h =
        (case x of Inl e \<Rightarrow> (Inl e, h1)
         | Inr v \<Rightarrow> (Inr (), set_item r ''additionalProperties'' v h1))"
      using \<open>map_of (items_at h r) ''additionalProperties'' = Some av\<close> Some c
      by (simp add: additional_step_heap_def split: sum.splits)
    have pure_eq: "additional_step normalize_schema td =
        (case normalize_schema avt of Inl e \<Rightarrow> Inl e
         | Inr ap' \<Rightarrow> Inr (PDict (dict_set ''additionalProperties'' ap' td)))"
      using avt_eq atd by (simp add: additional_step_def)
    show ?thesis
    proof (cases x)
      case (Inl e)
      with d(2) heap_eq pure_eq show ?thesis by auto
    next
      case (Inr v')
      from d(3) [OF Inr] obtain t' where nt: "normalize_schema avt = Inr t'"
        and rv: "repr_in ((A \<union> {r<..<length h}) \<union> {length h..<length h1}) h1 v' t'" by blast
      then have "repr_in (A \<union> {r<..<length h1}) h1 v' t'"
        using result_inv_sets [OF inv len1] by simp
      with inv1 have "result_inv A r (set_item r ''additionalProperties'' v' h1)
          (dict_set ''additionalProperties'' t' td)"
        by (rule result_inv_set_item)
      with Inr heap_eq pure_eq nt show ?thesis by simp
    qed
  qed
qed

lemma step_okD:
  assumes "step_ok A r res pure" and "res = (x, h')"
  shows "x = Inl HTypeError \<Longrightarrow> pure = Inl TypeError"
    and "x = Inr u \<Longrightarrow> \<exists>td'. pure = Inr td' \<and> result_inv A r h' td'"
  using assms by (auto simp: step_ok_def)

lemma normalize_schema_heap_refines: "refines (normalize_schema_heap depth)"
proof (induction depth)
  case 0
  show ?case by (simp add: refines_def unchanged_refl)
next
  case (Suc depth)
  let ?f = "normalize_schema_heap depth"
  show ?case
    unfolding refines_def
  proof (intro allI impI, elim conjE)
    fix S h v t
    assume rep: "repr_in S h v t" and S: "\<forall>a\<in>S. a < length h"
    let ?res = "normalize_schema_heap (Suc depth) h v"
    have frame: "unchanged h (snd ?res)"
      using normalize_schema_heap_keeps [of "Suc depth"] by (simp add: keeps_def)
    have rest: "(fst ?res = Inl HTypeError \<longrightarrow> normalize_schema t = Inl TypeError) \<and>
        (\<forall>v'. fst ?res = Inr v' \<longrightarrow>
           (\<exists>t'. normalize_schema t = Inr t' \<and>
              repr_in (S \<union> {length h..<length (snd ?res)}) (snd ?res) v' t'))"
    proof (cases "as_dict h v")
      case None
      with rep have "\<not> is_dict t" by (rule repr_in_as_dict_None)
      then have "normalize_schema t = Inr t" by (rule not_dict_normalize)
      moreover have "?res = (Inr v, h)" using None by simp
      ultimately show ?thesis using rep by simp
    next
      case (Some d)
      with rep obtain td where t: "t = PDict td" and rel: "items_rel S h d td"
        using repr_in_as_dict_Some by blast
      define r where "r = length h"
      define h0 where "h0 = h @ [HDict d]"
      have inv0: "result_inv S r h0 td"
      proof -
        have "items_rel (S \<union> {r<..<length h0}) h0 d td"
          using rel by (rule items_rel_unchanged) (use S in \<open>auto simp: h0_def unchanged_def\<close>)
        then show ?thesis using S by (simp add: result_inv_def r_def h0_def items_at_dict)
      qed
      obtain x1 h1 where s1: "ensure_type_heap r h0 = (x1, h1)"
        by (cases "ensure_type_heap r h0")
      obtain x2 h2 where s2: "object_step_heap ?f r h1 = (x2, h2)"
        by (cases "object_step_heap ?f r h1")
      obtain x3 h3 where s3: "items_step_heap ?f r h2 = (x3, h3)"
        by (cases "items_step_heap ?f r h2")
      obtain x4 h4 where s4: "additional_step_heap ?f r h3 = (x4, h4)"
        by (cases "additional_step_heap ?f r h3")
      have heap_eq: "?res =
          (case x1 of Inl e \<Rightarrow> (Inl e, h1) | Inr u \<Rightarrow>
           (case x2 of Inl e \<Rightarrow> (Inl e, h2) | Inr u \<Rightarrow>
            (case x3 of Inl e \<Rightarrow> (Inl e, h3) | Inr u \<Rightarrow>
             (case x4 of Inl e \<Rightarrow> (Inl e, h4) | Inr u \<Rightarrow> (Inr (HRef r), h4)))))"
        using Some s1 s2 s3 s4
        by (simp add: alloc_def r_def [symmetric] h0_def [symmetric] split: sum.splits)
      have pure_eq: "normalize_schema t =
          (case ensure_type td of Inl e \<Rightarrow> Inl e | Inr r0 \<Rightarrow>
           (case object_step normalize_schema r0 of Inl e \<Rightarrow> Inl e | Inr r2 \<Rightarrow>
            (case items_step normalize_schema r2 of Inl e \<Rightarrow> Inl e | Inr r3 \<Rightarrow>
               additional_step normalize_schema r3)))"
        unfolding t by (rule normalize_schema_steps)
      note ok1 = step_okD [OF ensure_type_heap_refines [OF inv0] s1]
      show ?thesis
      proof (cases x1)
        case (Inl e)
        with ok1(1) heap_eq pure_eq show ?thesis by auto
      next
        case u1: (Inr ua)
        from ok1(2) [OF u1] obtain td1 where p1: "ensure_type td = Inr td1"
          and inv1: "result_inv S r h1 td1" by blast
        note ok2 = step_okD [OF object_step_heap_refines [OF Suc.IH inv1] s2]
        show ?thesis
        proof (cases x2)
          case (Inl e)
          with ok2(1) u1 p1 heap_eq pure_eq show ?thesis by auto
        next
          case u2: (Inr ub)
          from ok2(2) [OF u2] obtain td2 where p2: "object_step normalize_schema td1 = Inr td2"
            and inv2: "result_inv S r h2 td2" by blast
          note ok3 = step_okD [OF items_step_heap_refines [OF Suc.IH inv2] s3]
          show ?thesis
          proof (cases x3)
            case (Inl e)
            with ok3(1) u1 u2 p1 p2 heap_eq pure_eq show ?thesis by auto
          next
            case u3: (Inr uc)
            from ok3(2) [OF u3] obtain td3 where p3: "items_step normalize_schema td2 = Inr td3"
              and inv3: "result_inv S r h3 td3" by blast
            note ok4 = additional_step_heap_refines [OF Suc.IH inv3, unfolded s4, simplified]
            show ?thesis
            proof (cases x4)
              case (Inl e)
              with ok4 u1 u2 u3 p1 p2 p3 heap_eq pure_eq show ?thesis by auto
            next
              case u4: (Inr ud)
              with ok4 obtain td4 where p4: "additional_step normalize_schema td3 = Inr (PDict td4)"
                and inv4: "result_inv S r h4 td4" by auto
              from inv4 have r4: "r < length h4" and "\<exists>d4. h4 ! r = HDict d4"
                and rel4: "items_rel (S \<union> {r<..<length h4}) h4 (items_at h4 r) td4"
                by (simp_all add: result_inv_def)
              then obtain d4 where d4: "h4 ! r = HDict d4" by blast
              have "items_rel (S \<union> {length h..<length h4}) h4 d4 td4"
                using rel4 r4 d4
                by (auto simp: items_at_dict r_def intro: items_rel_transfer)
              then have "repr_in (S \<union> {length h..<length h4}) h4 (HRef r) (PDict td4)"
                using r4 d4
                by (intro repr_in.RDict [where d = d4]) (simp_all add: items_rel_def r_def)
              with u1 u2 u3 u4 p1 p2 p3 p4 heap_eq pure_eq show ?thesis by simp
            qed
          qed
        qed
      qed
    qed
    from frame rest
    show "unchanged h (snd ?res) \<and>
        (fst ?res = Inl HTypeError \<longrightarrow> normalize_schema t = Inl TypeError) \<and>
        (\<forall>v'. fst ?res = Inr v' \<longrightarrow>
           (\<exists>t'. normalize_schema t = Inr t' \<and>
              repr_in (S \<union> {length h..<length (snd ?res)}) (snd ?res) v' t'))"
      by simp
  qed
qed

text \<open>
  The store model against the value model, for a value that stands for a tree: where the
  store model raises \<^verbatim>\<open>TypeError\<close>, so does the value model; where it returns, the
  value model returns the tree its result stands for.  (A run that uses up its depth
  raises \<^verbatim>\<open>RecursionError\<close>, which the value model does not have.)
\<close>

lemma normalize_schema_heap_agrees:
  assumes "repr_in S h v t" and "\<forall>a\<in>S. a < length h"
    and "normalize_schema_heap depth h v = (x, h')"
  shows "x = Inl HTypeError \<Longrightarrow> normalize_schema t = Inl TypeError"
    and "x = Inr v' \<Longrightarrow>
      \<exists>t'. normalize_schema t = Inr t' \<and> repr_in (S \<union> {length h..<length h'}) h' v' t'"
  using refinesD [OF normalize_schema_heap_refines assms] by blast+

text \<open>With enough depth for the tree, the store model does not run out of depth.\<close>

definition returns_below :: "nat \<Rightarrow> (heap \<Rightarrow> hval \<Rightarrow> (herror + hval) \<times> heap) \<Rightarrow> bool" where
  "returns_below n f =
     (\<forall>S h v t. repr_in S h v t \<and> (\<forall>a\<in>S. a < length h) \<and> size t < n \<longrightarrow>
        fst (f h v) \<noteq> Inl RecursionError)"

lemma returns_belowD:
  "returns_below n f \<Longrightarrow> repr_in S h v t \<Longrightarrow> \<forall>a\<in>S. a < length h \<Longrightarrow> size t < n \<Longrightarrow>
     f h v = (x, h') \<Longrightarrow> x \<noteq> Inl RecursionError"
  unfolding returns_below_def by (metis fst_conv)

lemma map_values_heap_returns:
  assumes f: "refines f" and b: "returns_below n f"
  shows "items_rel S h props tprops \<Longrightarrow> \<forall>a\<in>S. a < length h \<Longrightarrow>
     \<forall>p\<in>set tprops. size (snd p) < n \<Longrightarrow>
     fst (map_values_heap f h props) \<noteq> Inl RecursionError"
proof (induction props arbitrary: S h tprops)
  case Nil
  show ?case by simp
next
  case (Cons p kvs)
  obtain k v where p: "p = (k, v)" by (cases p)
  from Cons.prems(1) p obtain t tkvs where tp: "tprops = (k, t) # tkvs"
    and rv: "repr_in S h v t" and rk: "items_rel S h kvs tkvs"
    by (auto simp: items_rel_Cons)
  obtain x1 h1 where c: "f h v = (x1, h1)" by (cases "f h v")
  note d = refinesD [OF f rv Cons.prems(2) c]
  have sz: "size t < n" using Cons.prems(3) tp by simp
  have x1: "x1 \<noteq> Inl RecursionError"
    using b rv Cons.prems(2) sz c by (rule returns_belowD)
  show ?case
  proof (cases x1)
    case (Inl e)
    with x1 p c show ?thesis by simp
  next
    case (Inr v')
    let ?S1 = "S \<union> {length h..<length h1}"
    have len1: "length h \<le> length h1" using d(1) by (rule unchanged_length)
    have S1: "\<forall>a\<in>?S1. a < length h1" using Cons.prems(2) len1 by auto
    have rk1: "items_rel ?S1 h1 kvs tkvs"
      using rk d(1) Cons.prems(2) by (rule items_rel_unchanged) simp
    have "\<forall>p\<in>set tkvs. size (snd p) < n" using Cons.prems(3) tp by simp
    with Cons.IH [OF rk1 S1]
    have "fst (map_values_heap f h1 kvs) \<noteq> Inl RecursionError" by simp
    with p c Inr show ?thesis
      by (cases "map_values_heap f h1 kvs") (auto split: sum.splits)
  qed
qed

lemma ensure_type_heap_returns: "fst (ensure_type_heap r h) \<noteq> Inl RecursionError"
  by (auto simp: ensure_type_heap_def Let_def not_in_valid_types_heap_def
      split: sum.splits hval.splits)

lemma object_step_heap_returns:
  assumes f: "refines f" and b: "returns_below n f" and inv: "result_inv A r h td"
    and sz: "\<And>tprops p. dict_get (ensure_object_fields td) ''properties'' = Some (PDict tprops) \<Longrightarrow>
               p \<in> set tprops \<Longrightarrow> size (snd p) < n"
  shows "fst (object_step_heap f r h) \<noteq> Inl RecursionError"
proof (cases "map_of (items_at h r) ''type'' = Some (HStr ''object'')")
  case False
  then show ?thesis by (simp add: object_step_heap_def)
next
  case True
  define h1 where "h1 = ensure_object_fields_heap r h"
  have inv1: "result_inv A r h1 (ensure_object_fields td)"
    unfolding h1_def using inv by (rule ensure_object_fields_heap_refines)
  show ?thesis
  proof (cases "map_of (items_at h1 r) ''properties''")
    case None
    with True show ?thesis by (simp add: object_step_heap_def h1_def [symmetric])
  next
    case (Some pv)
    then obtain pt where pt: "dict_get (ensure_object_fields td) ''properties'' = Some pt"
      and rp: "repr_in (A \<union> {r<..<length h1}) h1 pv pt"
      using result_inv_get_Some [OF inv1] by blast
    show ?thesis
    proof (cases "as_dict h1 pv")
      case None
      with True Some show ?thesis by (simp add: object_step_heap_def h1_def [symmetric])
    next
      case (Some props)
      with rp obtain tprops where ptd: "pt = PDict tprops"
        and rel: "items_rel (A \<union> {r<..<length h1}) h1 props tprops"
        using repr_in_as_dict_Some by blast
      have "\<forall>p\<in>set tprops. size (snd p) < n" using sz pt ptd by blast
      with map_values_heap_returns [OF f b rel result_inv_bounds [OF inv1]]
      have "fst (map_values_heap f h1 props) \<noteq> Inl RecursionError" by simp
      with True \<open>map_of (items_at h1 r) ''properties'' = Some pv\<close> Some show ?thesis
        by (cases "map_values_heap f h1 props")
          (auto simp: object_step_heap_def h1_def [symmetric] alloc_def split: sum.splits)
    qed
  qed
qed

lemma items_step_heap_returns:
  assumes b: "returns_below n f" and inv: "result_inv A r h td"
    and sz: "\<And>t. dict_get td ''items'' = Some t \<Longrightarrow> size t < n"
  shows "fst (items_step_heap f r h) \<noteq> Inl RecursionError"
proof (cases "map_of (items_at h r) ''type'' = Some (HStr ''array'') \<and>
    map_of (items_at h r) ''items'' \<noteq> None")
  case False
  then show ?thesis by (auto simp: items_step_heap_def)
next
  case True
  then obtain iv where iv: "map_of (items_at h r) ''items'' = Some iv" by auto
  then obtain it where it: "dict_get td ''items'' = Some it"
    and ri: "repr_in (A \<union> {r<..<length h}) h iv it"
    using result_inv_get_Some [OF inv] by blast
  obtain x h1 where c: "f h iv = (x, h1)" by (cases "f h iv")
  have "x \<noteq> Inl RecursionError"
    using b ri result_inv_bounds [OF inv] sz [OF it] c by (rule returns_belowD)
  with True iv c show ?thesis
    by (cases x) (auto simp: items_step_heap_def)
qed

lemma additional_step_heap_returns:
  assumes b: "returns_below n f" and inv: "result_inv A r h td"
    and sz: "\<And>t. dict_get td ''additionalProperties'' = Some t \<Longrightarrow> size t < n"
  shows "fst (additional_step_heap f r h) \<noteq> Inl RecursionError"
proof (cases "map_of (items_at h r) ''additionalProperties''")
  case None
  then show ?thesis by (simp add: additional_step_heap_def)
next
  case (Some av)
  then obtain avt where avt: "dict_get td ''additionalProperties'' = Some avt"
    and ra: "repr_in (A \<union> {r<..<length h}) h av avt"
    using result_inv_get_Some [OF inv] by blast
  obtain x h1 where c: "f h av = (x, h1)" by (cases "f h av")
  have "x \<noteq> Inl RecursionError"
    using b ra result_inv_bounds [OF inv] sz [OF avt] c by (rule returns_belowD)
  with Some c show ?thesis
    by (cases x; cases "as_dict h av") (auto simp: additional_step_heap_def)
qed

lemma normalize_schema_heap_returns: "returns_below depth (normalize_schema_heap depth)"
proof (induction depth)
  case 0
  show ?case by (simp add: returns_below_def)
next
  case (Suc depth)
  let ?f = "normalize_schema_heap depth"
  have f: "refines ?f" by (rule normalize_schema_heap_refines)
  show ?case
    unfolding returns_below_def
  proof (intro allI impI, elim conjE)
    fix S h v t
    assume rep: "repr_in S h v t" and S: "\<forall>a\<in>S. a < length h" and sz: "size t < Suc depth"
    let ?res = "normalize_schema_heap (Suc depth) h v"
    show "fst ?res \<noteq> Inl RecursionError"
    proof (cases "as_dict h v")
      case None
      then show ?thesis by simp
    next
      case (Some d)
      with rep obtain td where t: "t = PDict td" and rel: "items_rel S h d td"
        using repr_in_as_dict_Some by blast
      from sz t have bound: "size (PDict td) \<le> depth" by simp
      define r where "r = length h"
      define h0 where "h0 = h @ [HDict d]"
      have inv0: "result_inv S r h0 td"
      proof -
        have "items_rel (S \<union> {r<..<length h0}) h0 d td"
          using rel by (rule items_rel_unchanged) (use S in \<open>auto simp: h0_def unchanged_def\<close>)
        then show ?thesis using S by (simp add: result_inv_def r_def h0_def items_at_dict)
      qed
      obtain x1 h1 where s1: "ensure_type_heap r h0 = (x1, h1)"
        by (cases "ensure_type_heap r h0")
      obtain x2 h2 where s2: "object_step_heap ?f r h1 = (x2, h2)"
        by (cases "object_step_heap ?f r h1")
      obtain x3 h3 where s3: "items_step_heap ?f r h2 = (x3, h3)"
        by (cases "items_step_heap ?f r h2")
      obtain x4 h4 where s4: "additional_step_heap ?f r h3 = (x4, h4)"
        by (cases "additional_step_heap ?f r h3")
      have heap_eq: "fst ?res =
          (case x1 of Inl e \<Rightarrow> Inl e | Inr u \<Rightarrow>
           (case x2 of Inl e \<Rightarrow> Inl e | Inr u \<Rightarrow>
            (case x3 of Inl e \<Rightarrow> Inl e | Inr u \<Rightarrow>
             (case x4 of Inl e \<Rightarrow> Inl e | Inr u \<Rightarrow> Inr (HRef r)))))"
        using Some s1 s2 s3 s4
        by (simp add: alloc_def r_def [symmetric] h0_def [symmetric] split: sum.splits)
      have n1: "x1 \<noteq> Inl RecursionError"
        using ensure_type_heap_returns [of r h0] s1 by simp
      note ok1 = step_okD [OF ensure_type_heap_refines [OF inv0] s1]
      show ?thesis
      proof (cases x1)
        case (Inl e)
        with n1 heap_eq show ?thesis by simp
      next
        case u1: (Inr ua)
        from ok1(2) [OF u1] obtain td1 where p1: "ensure_type td = Inr td1"
          and inv1: "result_inv S r h1 td1" by blast
        have n2: "x2 \<noteq> Inl RecursionError"
        proof -
          have "size (snd p) < depth"
            if "dict_get (ensure_object_fields td1) ''properties'' = Some (PDict tprops)"
              and "p \<in> set tprops" for tprops p
          proof -
            have "size (snd p) < size (PDict td)"
              using p1 that(1) by (rule size_props [where k' = "fst p"]) (use that(2) in simp)
            with bound show ?thesis by simp
          qed
          with object_step_heap_returns [OF f Suc.IH inv1] s2 show ?thesis by simp
        qed
        note ok2 = step_okD [OF object_step_heap_refines [OF f inv1] s2]
        show ?thesis
        proof (cases x2)
          case (Inl e)
          with n2 u1 heap_eq show ?thesis by simp
        next
          case u2: (Inr ub)
          from ok2(2) [OF u2] obtain td2 where p2: "object_step normalize_schema td1 = Inr td2"
            and inv2: "result_inv S r h2 td2" by blast
          have old2: "size w < depth" if "dict_get td2 k = Some w"
            and "k \<noteq> ''properties''" and "k \<noteq> ''required''" for k w
          proof -
            from p2 that have "dict_get td1 k = Some w" by (simp add: object_step_get)
            with p1 have "size w < size (PDict td)" by (rule ensure_type_size)
            with bound show ?thesis by simp
          qed
          have n3: "x3 \<noteq> Inl RecursionError"
            using items_step_heap_returns [OF Suc.IH inv2] old2 s3 by simp
          note ok3 = step_okD [OF items_step_heap_refines [OF f inv2] s3]
          show ?thesis
          proof (cases x3)
            case (Inl e)
            with n3 u1 u2 heap_eq show ?thesis by simp
          next
            case u3: (Inr uc)
            from ok3(2) [OF u3] obtain td3 where p3: "items_step normalize_schema td2 = Inr td3"
              and inv3: "result_inv S r h3 td3" by blast
            have "size w < depth" if "dict_get td3 ''additionalProperties'' = Some w" for w
            proof -
              from p3 that have "dict_get td2 ''additionalProperties'' = Some w"
                by (simp add: items_step_get)
              then show ?thesis by (rule old2) simp_all
            qed
            with additional_step_heap_returns [OF Suc.IH inv3] s4
            have n4: "x4 \<noteq> Inl RecursionError" by simp
            with u1 u2 u3 heap_eq show ?thesis by (cases x4) simp_all
          qed
        qed
      qed
    qed
  qed
qed

text \<open>
  So for a value that stands for a tree \<open>t\<close> and a depth above the size of \<open>t\<close>, the
  two models agree on the outcome: both raise \<^verbatim>\<open>TypeError\<close>, or both return, the
  store model a value that stands for the tree the value model returns.
\<close>

lemma normalize_schema_heap_complete:
  assumes "repr_in S h v t" and "\<forall>a\<in>S. a < length h" and "size t < depth"
  shows "(fst (normalize_schema_heap depth h v) = Inl HTypeError \<and>
            normalize_schema t = Inl TypeError) \<or>
         (\<exists>v' t'. fst (normalize_schema_heap depth h v) = Inr v' \<and>
            normalize_schema t = Inr t' \<and>
            repr_in (S \<union> {length h..<length (snd (normalize_schema_heap depth h v))})
              (snd (normalize_schema_heap depth h v)) v' t')"
proof -
  obtain x h' where c: "normalize_schema_heap depth h v = (x, h')"
    by (cases "normalize_schema_heap depth h v")
  have "x \<noteq> Inl RecursionError"
    using normalize_schema_heap_returns assms c by (rule returns_belowD)
  then consider "x = Inl HTypeError" | v' where "x = Inr v'"
    by (cases x) (auto intro: herror.exhaust)
  then show ?thesis
  proof cases
    case 1
    with normalize_schema_heap_agrees(1) [OF assms(1,2) c] c show ?thesis by simp
  next
    case 2
    with normalize_schema_heap_agrees(2) [OF assms(1,2) c] c show ?thesis by auto
  qed
qed

end
